theory Spec2Isabelle
  imports Main "HOL-Library.Monad_Syntax"
begin

section \<open>Strings and the case mappings of the JavaScript runtime\<close>

text \<open>
  The Naamrot converter: \<open>convertText\<close> and the functions it calls. The repository
  holds two copies of the engine; the model follows the later one, whose suffix and
  prefix stages include IR \<rightarrow> AR, AY \<rightarrow> AEH, SN \<rightarrow> SAN and SW \<rightarrow> SAW
  (\<open>app.js\<close> is the earlier copy: the same tokenizer, segment model, exception
  lookup and vowel swap, fewer rules, and a U \<rightarrow> YAU prefix rule that the later copy
  has commented out). The user interface around the engine is not modelled.

  A JavaScript string is modelled as the list of its code points, each a natural number.
  The program only ever tests characters against ASCII letters, the hyphen and the
  apostrophe, and cuts the input at the boundaries of ASCII tokens, so counting code
  points instead of UTF-16 code units cuts at the same places.

  \<open>toUpperCase\<close> and \<open>toLowerCase\<close> are library functions of the runtime, not code of
  the repository. On ASCII they are written out. Beyond ASCII they are parameters:
  \<open>uc rt c\<close> is the (possibly multi-character) upper-case mapping of the non-ASCII code
  point \<open>c\<close> (upper-casing is context-free), and \<open>lcs rt s\<close> is the lower-casing of a
  string \<open>s\<close> that contains a non-ASCII code point (lower-casing is context-sensitive).
\<close>

type_synonym jschar = nat
type_synonym jsstring = "nat list"

record runtime =
  uc :: "jschar \<Rightarrow> jsstring"
  lcs :: "jsstring \<Rightarrow> jsstring"

definition js :: "string \<Rightarrow> jsstring" where
  "js s = map of_char s"

definition asciiUpper :: "jschar \<Rightarrow> jschar" where
  "asciiUpper c = (if 97 \<le> c \<and> c \<le> 122 then c - 32 else c)"

definition asciiLower :: "jschar \<Rightarrow> jschar" where
  "asciiLower c = (if 65 \<le> c \<and> c \<le> 90 then c + 32 else c)"

definition upper1 :: "runtime \<Rightarrow> jschar \<Rightarrow> jsstring" where
  \<comment> \<open>\<open>ch.toUpperCase()\<close> of a one-character string\<close>
  "upper1 rt c = (if c < 128 then [asciiUpper c] else uc rt c)"

definition toUpperCase :: "runtime \<Rightarrow> jsstring \<Rightarrow> jsstring" where
  "toUpperCase rt s = concat (map (upper1 rt) s)"

definition toLowerCase :: "runtime \<Rightarrow> jsstring \<Rightarrow> jsstring" where
  "toLowerCase rt s = (if list_all (\<lambda>c. c < 128) s then map asciiLower s else lcs rt s)"

definition latin1Runtime :: runtime where
  \<comment> \<open>A concrete runtime for closed examples: the Unicode mappings of U+0080..U+00FF,
      every code point above left as it is.\<close>
  "latin1Runtime =
     \<lparr> uc = (\<lambda>c. if c = 181 then [924]
                 else if c = 223 then [83, 83]
                 else if c = 255 then [376]
                 else if 224 \<le> c \<and> c \<le> 254 \<and> c \<noteq> 247 then [c - 32]
                 else [c]),
       lcs = map (\<lambda>c. if 65 \<le> c \<and> c \<le> 90 then c + 32
                       else if 192 \<le> c \<and> c \<le> 222 \<and> c \<noteq> 215 then c + 32
                       else c) \<rparr>"

definition endsWith :: "jsstring \<Rightarrow> jsstring \<Rightarrow> bool" where
  "endsWith s suf = (length suf \<le> length s \<and> drop (length s - length suf) s = suf)"

definition startsWith :: "jsstring \<Rightarrow> jsstring \<Rightarrow> bool" where
  "startsWith s pre = (take (length pre) s = pre)"

definition slice :: "jsstring \<Rightarrow> nat \<Rightarrow> nat \<Rightarrow> jsstring" where
  \<comment> \<open>\<open>s.slice(a, b)\<close> for non-negative \<open>a\<close>, \<open>b\<close>; empty when \<open>b \<le> a\<close>\<close>
  "slice s a b = take (b - a) (drop a s)"

definition elemAt :: "'a list \<Rightarrow> nat \<Rightarrow> 'a option" where
  \<comment> \<open>\<open>xs[i]\<close>: \<open>None\<close> is JavaScript's \<open>undefined\<close>\<close>
  "elemAt xs i = (if i < length xs then Some (xs ! i) else None)"

section \<open>Rule tables\<close>

datatype exOut = OutString jsstring | OutFunction "jsstring \<Rightarrow> jsstring"

datatype exRule =
    LiteralRule jsstring exOut
  | RegexRule "jsstring list" exOut
    \<comment> \<open>\<open>RegexRule [a, b] out\<close> is \<open>{ type: "regex", re: /^(a|b)$/i, out }\<close>\<close>

definition EXCEPTIONS :: "exRule list" where
  "EXCEPTIONS =
    [ RegexRule [js ''very''] (OutString (js ''WELL'')),
      RegexRule [js ''well''] (OutString (js ''WELL'')),
      RegexRule [js ''you'', js ''your''] (OutString (js ''YA'')),
      RegexRule [js ''the''] (OutString (js ''THA'')),
      RegexRule [js ''for''] (OutString (js ''FA'')),
      RegexRule [js ''please''] (OutString (js ''PALEASE'')),
      RegexRule [js ''deadline''] (OutString (js ''DODLINE'')),
      RegexRule [js ''mistakes''] (OutString (js ''MOSTAKES'')),
      RegexRule [js ''aminur''] (OutString (js ''AMINAH'')),
      RegexRule [js ''date''] (OutString (js ''DATE'')),
      RegexRule [js ''name''] (OutString (js ''NAME'')),
      RegexRule [js ''set''] (OutString (js ''SOT'')) ]"

definition PROTECTED_SUFFIXES :: "jsstring list" where
  \<comment> \<open>\<open>[...].sort((a, b) => b.length - a.length)\<close>: a stable sort, longest first\<close>
  "PROTECTED_SUFFIXES =
     sort_key (\<lambda>s. - int (length s))
       (map js [''SHAN'', ''MENT'', ''TION'', ''ING'', ''ED'', ''ER'', ''LY'', ''NESS'',
                ''ABLE'', ''IBLE'', ''OUS'', ''IVE'', ''AL'', ''ITY''])"

definition VOWELS :: "jsstring list" where
  "VOWELS = map js [''A'', ''E'', ''I'', ''O'', ''U'']"

definition SWAPPABLE :: "jsstring list" where
  "SWAPPABLE = map js [''A'', ''E'', ''I'']"

section \<open>Segments\<close>

record seg =
  ch :: jschar
  origin :: bool

definition segFromString :: "jsstring \<Rightarrow> bool \<Rightarrow> seg list" where
  "segFromString str orig = map (\<lambda>c. \<lparr> ch = c, origin = orig \<rparr>) str"

definition segToString :: "seg list \<Rightarrow> jsstring" where
  "segToString segs = map ch segs"

definition spliceSegs :: "seg list \<Rightarrow> int \<Rightarrow> int \<Rightarrow> seg list \<Rightarrow> seg list" where
  \<comment> \<open>\<open>segs.splice(start, end - start, ...insertSegs)\<close> with the clamping of
      \<open>Array.prototype.splice\<close>: a negative start counts from the end, the delete count
      is cut to what lies between the start and the end of the array\<close>
  "spliceSegs segs start end insertSegs =
     (let len = int (length segs);
          actualStart = (if start < 0 then max (len + start) 0 else min start len);
          deleteCount = min (max (end - start) 0) (len - actualStart)
      in take (nat actualStart) segs @ insertSegs @ drop (nat (actualStart + deleteCount)) segs)"

definition isLetter :: "jschar \<Rightarrow> bool" where
  "isLetter c = ((c \<ge> 65 \<and> c \<le> 90) \<or> (c \<ge> 97 \<and> c \<le> 122))"

definition isConsonantLetter :: "runtime \<Rightarrow> jschar \<Rightarrow> bool" where
  "isConsonantLetter rt c = (isLetter c \<and> upper1 rt c \<notin> set VOWELS)"

section \<open>Exceptions\<close>

definition canonicalize :: "jschar \<Rightarrow> jschar" where
  \<comment> \<open>case folding of a regular expression with flag \<open>i\<close> and without flag \<open>u\<close>: a
      non-ASCII character never folds to an ASCII one, and the patterns of the table
      are ASCII, so only the ASCII folding is written out\<close>
  "canonicalize c = asciiUpper c"

definition regexMatches :: "jsstring list \<Rightarrow> jsstring \<Rightarrow> bool" where
  "regexMatches alts wordPart =
     (\<exists>alt \<in> set alts. map canonicalize wordPart = map canonicalize alt)"

fun exOutValue :: "exOut \<Rightarrow> jsstring \<Rightarrow> jsstring" where
  "exOutValue (OutString s) wordPart = s"
| "exOutValue (OutFunction f) wordPart = f wordPart"

fun exMatches :: "runtime \<Rightarrow> exRule \<Rightarrow> jsstring \<Rightarrow> bool" where
  "exMatches rt (LiteralRule m out) wordPart = (toLowerCase rt wordPart = toLowerCase rt m)"
| "exMatches rt (RegexRule alts out) wordPart = regexMatches alts wordPart"

fun exRuleOut :: "exRule \<Rightarrow> exOut" where
  "exRuleOut (LiteralRule m out) = out"
| "exRuleOut (RegexRule alts out) = out"

fun applyExceptionsIn :: "runtime \<Rightarrow> exRule list \<Rightarrow> jsstring \<Rightarrow> bool \<times> jsstring" where
  "applyExceptionsIn rt [] wordPart = (False, wordPart)"
| "applyExceptionsIn rt (ex # exs) wordPart =
     (if exMatches rt ex wordPart then (True, exOutValue (exRuleOut ex) wordPart)
      else applyExceptionsIn rt exs wordPart)"

definition applyExceptions :: "runtime \<Rightarrow> jsstring \<Rightarrow> bool \<times> jsstring" where
  "applyExceptions rt wordPart = applyExceptionsIn rt EXCEPTIONS wordPart"

section \<open>Protected suffix\<close>

fun firstSuffix :: "jsstring \<Rightarrow> jsstring list \<Rightarrow> nat" where
  "firstSuffix upper [] = length upper"
| "firstSuffix upper (suf # sufs) =
     (if endsWith upper suf then length upper - length suf else firstSuffix upper sufs)"

definition protectedSuffixStartIndex :: "runtime \<Rightarrow> seg list \<Rightarrow> nat" where
  "protectedSuffixStartIndex rt segs =
     firstSuffix (toUpperCase rt (segToString segs)) PROTECTED_SUFFIXES"

section \<open>Suffix rules\<close>

text \<open>
  A function of the source that changes \<open>segs\<close> in place and returns a flag is modelled
  as returning the pair of the new \<open>segs\<close> and the flag. A read \<open>segs[i].ch\<close> of an
  element that does not exist throws a TypeError: such a function returns an option, and
  \<open>None\<close> is the thrown error.
\<close>

definition applyEndingAH :: "runtime \<Rightarrow> seg list \<Rightarrow> seg list \<times> bool" where
  "applyEndingAH rt segs =
     (let s = toUpperCase rt (segToString segs) in
      if endsWith s (js ''ER'') \<or> endsWith s (js ''UR'')
      then (spliceSegs segs (int (length segs) - 2) (int (length segs))
              (segFromString (js ''AH'') False), True)
      else if endsWith s (js ''A'')
      then (spliceSegs segs (int (length segs) - 1) (int (length segs))
              (segFromString (js ''AH'') False), True)
      else (segs, False))"

function replaceAllERWithAH_loop :: "runtime \<Rightarrow> seg list \<Rightarrow> nat \<Rightarrow> seg list option" where
  "replaceAllERWithAH_loop rt segs i =
     (if int i < int (length segs) - 1 then
        (case (elemAt segs i, elemAt segs (i + 1)) of
           (Some x, Some y) \<Rightarrow>
             if upper1 rt (ch x) = js ''E'' \<and> upper1 rt (ch y) = js ''R''
             then replaceAllERWithAH_loop rt
                    (spliceSegs segs (int i) (int i + 2) (segFromString (js ''AH'') False))
                    (i + 1 + 1)
             else replaceAllERWithAH_loop rt segs (i + 1)
         | _ \<Rightarrow> None)
      else Some segs)"
  by pat_completeness auto
termination
  by (relation "measure (\<lambda>(rt, segs, i). length segs - i)")
     (auto simp: spliceSegs_def segFromString_def js_def Let_def)

declare replaceAllERWithAH_loop.simps [simp del]

definition replaceAllERWithAH :: "runtime \<Rightarrow> seg list \<Rightarrow> seg list option" where
  "replaceAllERWithAH rt segs = replaceAllERWithAH_loop rt segs 0"

function replaceAllIRWithAR_loop :: "runtime \<Rightarrow> seg list \<Rightarrow> nat \<Rightarrow> seg list option" where
  "replaceAllIRWithAR_loop rt segs i =
     (if int i < int (length segs) - 1 then
        (case (elemAt segs i, elemAt segs (i + 1)) of
           (Some x, Some y) \<Rightarrow>
             if upper1 rt (ch x) = js ''I'' \<and> upper1 rt (ch y) = js ''R''
             then replaceAllIRWithAR_loop rt
                    (spliceSegs segs (int i) (int i + 2) (segFromString (js ''AR'') False))
                    (i + 1 + 1)
             else replaceAllIRWithAR_loop rt segs (i + 1)
         | _ \<Rightarrow> None)
      else Some segs)"
  by pat_completeness auto
termination
  by (relation "measure (\<lambda>(rt, segs, i). length segs - i)")
     (auto simp: spliceSegs_def segFromString_def js_def Let_def)

declare replaceAllIRWithAR_loop.simps [simp del]

definition replaceAllIRWithAR :: "runtime \<Rightarrow> seg list \<Rightarrow> seg list option" where
  "replaceAllIRWithAR rt segs = replaceAllIRWithAR_loop rt segs 0"

definition replaceEndingTION :: "runtime \<Rightarrow> seg list \<Rightarrow> seg list \<times> bool" where
  "replaceEndingTION rt segs =
     (let s = toUpperCase rt (segToString segs) in
      if endsWith s (js ''TION'') \<and> length segs \<ge> 4
      then (spliceSegs segs (int (length segs) - 4) (int (length segs))
              (segFromString (js ''SHAN'') False), True)
      else (segs, False))"

definition replaceEndingTY :: "runtime \<Rightarrow> seg list \<Rightarrow> seg list \<times> bool" where
  "replaceEndingTY rt segs =
     (let s = toUpperCase rt (segToString segs) in
      if endsWith s (js ''TY'') \<and> length segs \<ge> 2
      then (spliceSegs segs (int (length segs) - 2) (int (length segs))
              (segFromString (js ''TEH'') False), True)
      else (segs, False))"

definition replaceEndingAY :: "runtime \<Rightarrow> seg list \<Rightarrow> seg list \<times> bool" where
  "replaceEndingAY rt segs =
     (let s = toUpperCase rt (segToString segs) in
      if endsWith s (js ''AY'') \<and> length segs \<ge> 2
      then (spliceSegs segs (int (length segs) - 2) (int (length segs))
              (segFromString (js ''AEH'') False), True)
      else (segs, False))"

definition replaceEndingLY :: "runtime \<Rightarrow> seg list \<Rightarrow> seg list" where
  "replaceEndingLY rt segs =
     (let s = toUpperCase rt (segToString segs) in
      if endsWith s (js ''LEY'') \<and> length segs \<ge> 3
      then spliceSegs segs (int (length segs) - 3) (int (length segs))
             (segFromString (js ''LEH'') False)
      else if endsWith s (js ''LY'') \<and> length segs \<ge> 2
      then spliceSegs segs (int (length segs) - 2) (int (length segs))
             (segFromString (js ''LEH'') False)
      else segs)"

definition replaceEndingYToEH :: "runtime \<Rightarrow> seg list \<Rightarrow> seg list \<times> bool" where
  "replaceEndingYToEH rt segs =
     (let s = toUpperCase rt (segToString segs) in
      if endsWith s (js ''LY'') \<or> endsWith s (js ''LEY'') \<or> endsWith s (js ''TY'')
      then (segs, False)
      else if endsWith s (js ''Y'') \<and> length segs \<ge> 1
      then (spliceSegs segs (int (length segs) - 1) (int (length segs))
              (segFromString (js ''EH'') False), True)
      else (segs, False))"

section \<open>Prefix rules\<close>

definition replaceStartingSWWithSAW :: "runtime \<Rightarrow> seg list \<Rightarrow> seg list option" where
  "replaceStartingSWWithSAW rt segs =
     (if length segs \<ge> 2 then
        (case (elemAt segs 0, elemAt segs 1) of
           (Some x, Some y) \<Rightarrow>
             if upper1 rt (ch x) = js ''S'' \<and> upper1 rt (ch y) = js ''W''
             then Some (spliceSegs segs 0 2 (segFromString (js ''SAW'') False))
             else Some segs
         | _ \<Rightarrow> None)
      else Some segs)"

definition replaceStartingSNWithSAN :: "runtime \<Rightarrow> seg list \<Rightarrow> seg list option" where
  "replaceStartingSNWithSAN rt segs =
     (if length segs \<ge> 2 then
        (case (elemAt segs 0, elemAt segs 1) of
           (Some x, Some y) \<Rightarrow>
             if upper1 rt (ch x) = js ''S'' \<and> upper1 rt (ch y) = js ''N''
             then Some (spliceSegs segs 0 2 (segFromString (js ''SAN'') False))
             else Some segs
         | _ \<Rightarrow> None)
      else Some segs)"

definition applyPrefixREToRO :: "runtime \<Rightarrow> seg list \<Rightarrow> seg list option" where
  "applyPrefixREToRO rt segs =
     (let s = segToString segs;
          lower = toLowerCase rt s
      in if lower = js ''re'' then Some segs
         else if startsWith lower (js ''re'') \<and> length s \<ge> 3 then
           (case elemAt s 2 of
              Some c \<Rightarrow>
                if upper1 rt c \<in> set VOWELS
                then Some (spliceSegs segs 0 2 (segFromString (js ''ro'') False))
                else Some segs
            | None \<Rightarrow> None)
         else Some segs)"

section \<open>Consonant insert rules\<close>

definition applyClusterInsertions :: "runtime \<Rightarrow> seg list \<Rightarrow> seg list option" where
  "applyClusterInsertions rt segs =
     (let first =
            (if length segs \<ge> 3 then
               (case (elemAt segs 0, elemAt segs 1, elemAt segs 2) of
                  (Some x0, Some x1, Some x2) \<Rightarrow>
                    Some (isConsonantLetter rt (ch x0) \<and> isConsonantLetter rt (ch x1)
                            \<and> upper1 rt (ch x2) = js ''R'')
                | _ \<Rightarrow> None)
             else Some False)
      in case first of
           None \<Rightarrow> None
         | Some True \<Rightarrow> Some (spliceSegs segs 2 2 (segFromString (js ''A'') False))
         | Some False \<Rightarrow>
             (if length segs \<ge> 2 then
                (case (elemAt segs 0, elemAt segs 1) of
                   (Some x0, Some x1) \<Rightarrow>
                     if isConsonantLetter rt (ch x0)
                        \<and> (upper1 rt (ch x1) = js ''R'' \<or> upper1 rt (ch x1) = js ''L'')
                     then Some (spliceSegs segs 1 1 (segFromString (js ''A'') False))
                     else Some segs
                 | _ \<Rightarrow> None)
              else Some segs))"

section \<open>Vowel swaps\<close>

function origVowelIdx_loop :: "runtime \<Rightarrow> seg list \<Rightarrow> nat \<Rightarrow> nat list \<Rightarrow> nat list option" where
  "origVowelIdx_loop rt segs i acc =
     (if i < length segs then
        (case elemAt segs i of
           None \<Rightarrow> None
         | Some x \<Rightarrow>
             if \<not> origin x then origVowelIdx_loop rt segs (i + 1) acc
             else if upper1 rt (ch x) \<in> set VOWELS
             then origVowelIdx_loop rt segs (i + 1) (acc @ [i])
             else origVowelIdx_loop rt segs (i + 1) acc)
      else Some acc)"
  by pat_completeness auto
termination
  by (relation "measure (\<lambda>(rt, segs, i, acc). length segs - i)") auto

declare origVowelIdx_loop.simps [simp del]

definition protectSetOf :: "bool \<Rightarrow> nat list \<Rightarrow> nat set" where
  "protectSetOf endingChangedToAH origVowelIdx =
     (if \<not> endingChangedToAH \<and> length origVowelIdx \<ge> 1 then
        (if length origVowelIdx = 4
         then {origVowelIdx ! (length origVowelIdx - 1), origVowelIdx ! (length origVowelIdx - 2)}
         else {origVowelIdx ! (length origVowelIdx - 1)})
      else {})"

function swap_loop :: "runtime \<Rightarrow> nat \<Rightarrow> nat set \<Rightarrow> seg list \<Rightarrow> nat \<Rightarrow> seg list option" where
  "swap_loop rt boundary protectSet segs i =
     (if i < length segs then
        (case elemAt segs i of
           None \<Rightarrow> None
         | Some x \<Rightarrow>
             if i \<ge> boundary then swap_loop rt boundary protectSet segs (i + 1)
             else if \<not> origin x then swap_loop rt boundary protectSet segs (i + 1)
             else if upper1 rt (ch x) \<notin> set SWAPPABLE
             then swap_loop rt boundary protectSet segs (i + 1)
             else if i \<in> protectSet then swap_loop rt boundary protectSet segs (i + 1)
             else if (case elemAt segs (i + 1) of None \<Rightarrow> [] | Some y \<Rightarrow> upper1 rt (ch y))
                       \<in> set VOWELS
             then swap_loop rt boundary protectSet segs (i + 1)
             else swap_loop rt boundary protectSet
                    (segs[i := \<lparr> ch = 111, origin = False \<rparr>]) (i + 1))
      else Some segs)"
  by pat_completeness auto
termination
  by (relation "measure (\<lambda>(rt, boundary, protectSet, segs, i). length segs - i)") auto

declare swap_loop.simps [simp del]

definition applyVowelSwaps :: "runtime \<Rightarrow> seg list \<Rightarrow> bool \<Rightarrow> seg list option" where
  "applyVowelSwaps rt segs endingChangedToAH =
     (let boundary = protectedSuffixStartIndex rt segs in
      case origVowelIdx_loop rt segs 0 [] of
        None \<Rightarrow> None
      | Some origVowelIdx \<Rightarrow>
          swap_loop rt boundary (protectSetOf endingChangedToAH origVowelIdx) segs 0)"

section \<open>Word transformation\<close>

definition transformWordPart :: "runtime \<Rightarrow> jsstring \<Rightarrow> jsstring option" where
  "transformWordPart rt part =
     (let ex = applyExceptions rt part in
      if fst ex then Some (toUpperCase rt (snd ex))
      else do {
        let segs = segFromString part True;
        segs \<leftarrow> replaceAllERWithAH rt segs;
        segs \<leftarrow> replaceAllIRWithAR rt segs;
        let segs = fst (replaceEndingTION rt segs);
        let segs = fst (replaceEndingTY rt segs);
        let segs = replaceEndingLY rt segs;
        let (segs, endingChangedToAH) = applyEndingAH rt segs;
        let segs = fst (replaceEndingAY rt segs);
        let segs = fst (replaceEndingYToEH rt segs);
        segs \<leftarrow> replaceStartingSNWithSAN rt segs;
        segs \<leftarrow> replaceStartingSWWithSAW rt segs;
        segs \<leftarrow> applyPrefixREToRO rt segs;
        segs \<leftarrow> applyClusterInsertions rt segs;
        segs \<leftarrow> applyVowelSwaps rt segs endingChangedToAH;
        Some (toUpperCase rt (segToString segs))
      })"

definition isSeparator :: "jschar \<Rightarrow> bool" where
  "isSeparator c = (c = 45 \<or> c = 39)"

fun split_loop :: "jsstring \<Rightarrow> jsstring \<Rightarrow> jsstring list" where
  "split_loop cur [] = [cur]"
| "split_loop cur (c # cs) =
     (if isSeparator c then cur # [c] # split_loop [] cs else split_loop (cur @ [c]) cs)"

definition splitKeep :: "jsstring \<Rightarrow> jsstring list" where
  \<comment> \<open>\<open>token.split(/([-'])/)\<close>: the pieces between separators, the separators kept\<close>
  "splitKeep token = split_loop [] token"

fun transformParts :: "runtime \<Rightarrow> jsstring list \<Rightarrow> jsstring list option" where
  "transformParts rt [] = Some []"
| "transformParts rt (p # ps) =
     do {
       q \<leftarrow> (if p = js ''-'' \<or> p = js [CHR 39] then Some p else transformWordPart rt p);
       qs \<leftarrow> transformParts rt ps;
       Some (q # qs)
     }"

definition transformWordToken :: "runtime \<Rightarrow> jsstring \<Rightarrow> jsstring option" where
  "transformWordToken rt token =
     do { parts \<leftarrow> transformParts rt (splitKeep token); Some (concat parts) }"

section \<open>Whole text\<close>

definition wordChar :: "jschar \<Rightarrow> bool" where
  \<comment> \<open>the character class \<open>[A-Za-z]\<close>\<close>
  "wordChar c = ((65 \<le> c \<and> c \<le> 90) \<or> (97 \<le> c \<and> c \<le> 122))"

function matchGroups :: "jsstring \<Rightarrow> jsstring" where
  \<comment> \<open>the greedy \<open>(?:[-'][A-Za-z]+)*\<close> at the start of a string: what it consumes\<close>
  "matchGroups s =
     (case s of
        sep # l # rest \<Rightarrow>
          if isSeparator sep \<and> wordChar l
          then sep # takeWhile wordChar (l # rest) @ matchGroups (dropWhile wordChar (l # rest))
          else []
      | _ \<Rightarrow> [])"
  by pat_completeness auto
termination
  by (relation "measure length") (auto intro: le_less_trans [OF length_dropWhile_le])

declare matchGroups.simps [simp del]

definition matchAt :: "jsstring \<Rightarrow> jsstring option" where
  \<comment> \<open>\<open>[A-Za-z]+(?:[-'][A-Za-z]+)*\<close> anchored at the start of a string\<close>
  "matchAt s =
     (case s of
        [] \<Rightarrow> None
      | c # cs \<Rightarrow>
          if wordChar c
          then Some (takeWhile wordChar (c # cs) @ matchGroups (dropWhile wordChar (c # cs)))
          else None)"

function matchAllFrom :: "jsstring \<Rightarrow> nat \<Rightarrow> (nat \<times> jsstring) list" where
  \<comment> \<open>the matches of the global regular expression from \<open>lastIndex\<close> on, each with its index\<close>
  "matchAllFrom input lastIndex =
     (if lastIndex \<ge> length input then []
      else case matchAt (drop lastIndex input) of
             Some tok \<Rightarrow> (lastIndex, tok) # matchAllFrom input (lastIndex + length tok)
           | None \<Rightarrow> matchAllFrom input (lastIndex + 1))"
  by pat_completeness auto
termination
proof (relation "measure (\<lambda>(input, lastIndex). length input - lastIndex)", goal_cases)
  case 1
  show ?case by simp
next
  case (2 input lastIndex)
  then show ?case by simp
next
  case (3 input lastIndex tok)
  from 3(2) have "0 < length tok"
    by (cases "drop lastIndex input") (auto simp: matchAt_def split: if_splits)
  with 3(1) show ?case unfolding in_measure prod.case by arith
qed

declare matchAllFrom.simps [simp del]

definition matchAll :: "jsstring \<Rightarrow> (nat \<times> jsstring) list" where
  "matchAll input = matchAllFrom input 0"

fun convertText_loop ::
  "runtime \<Rightarrow> jsstring \<Rightarrow> jsstring \<times> nat \<Rightarrow> (nat \<times> jsstring) list \<Rightarrow> (jsstring \<times> nat) option" where
  "convertText_loop rt input (out, lastEnd) [] = Some (out, lastEnd)"
| "convertText_loop rt input (out, lastEnd) ((idx, m) # ms) =
     do {
       t \<leftarrow> transformWordToken rt m;
       convertText_loop rt input (out @ slice input lastEnd idx @ t, idx + length m) ms
     }"

definition convertText :: "runtime \<Rightarrow> jsstring \<Rightarrow> jsstring option" where
  "convertText rt input =
     do {
       (out, lastEnd) \<leftarrow> convertText_loop rt input ([], 0) (matchAll input);
       Some (toUpperCase rt (out @ drop lastEnd input))
     }"

section \<open>Notions used in the proofs\<close>

text \<open>
  None of the following is code of the program. \<open>pairScan\<close> is what the two
  replace-everywhere loops compute, written by recursion on the list. \<open>synth\<close> is the
  set of segments a rule may insert. \<open>origVowelPositions\<close> and \<open>swapCond\<close> describe
  the two loops of the vowel swap. \<open>suffixStagesBeforeAH\<close> and
  \<open>stagesBeforeVowelSwaps\<close> are the first stages of \<open>transformWordPart\<close>, named so
  that the state between two stages can be spoken about. \<open>scanText\<close> is the conversion
  read off the specification: left to right, a word token is replaced by its
  transformation, any other character is copied. \<open>skeleton\<close> is a string with
  every maximal run of letters replaced by one \<open>A\<close>: what is left are the non-letter
  characters, each with the words it stands between.
\<close>

fun pairScan :: "runtime \<Rightarrow> jsstring \<Rightarrow> jsstring \<Rightarrow> seg list \<Rightarrow> seg list \<Rightarrow> seg list" where
  "pairScan rt a b ins (x # y # rest) =
     (if upper1 rt (ch x) = a \<and> upper1 rt (ch y) = b then ins @ pairScan rt a b ins rest
      else x # pairScan rt a b ins (y # rest))"
| "pairScan rt a b ins segs = segs"

definition synth :: "seg set" where
  "synth = {x. isLetter (ch x) \<and> \<not> origin x}"

definition origVowelPositions :: "runtime \<Rightarrow> seg list \<Rightarrow> nat list" where
  "origVowelPositions rt segs =
     filter (\<lambda>i. origin (segs ! i) \<and> upper1 rt (ch (segs ! i)) \<in> set VOWELS) [0..<length segs]"

definition swapCond :: "runtime \<Rightarrow> nat \<Rightarrow> nat set \<Rightarrow> seg list \<Rightarrow> nat \<Rightarrow> bool" where
  "swapCond rt boundary protectSet segs i =
     (i < boundary \<and> origin (segs ! i) \<and> upper1 rt (ch (segs ! i)) \<in> set SWAPPABLE
      \<and> i \<notin> protectSet
      \<and> (if i + 1 < length segs then upper1 rt (ch (segs ! (i + 1))) else []) \<notin> set VOWELS)"

definition suffixStagesBeforeAH :: "runtime \<Rightarrow> jsstring \<Rightarrow> seg list option" where
  "suffixStagesBeforeAH rt part =
     do {
       let segs = segFromString part True;
       segs \<leftarrow> replaceAllERWithAH rt segs;
       segs \<leftarrow> replaceAllIRWithAR rt segs;
       let segs = fst (replaceEndingTION rt segs);
       let segs = fst (replaceEndingTY rt segs);
       Some (replaceEndingLY rt segs)
     }"

definition stagesBeforeVowelSwaps :: "runtime \<Rightarrow> jsstring \<Rightarrow> (seg list \<times> bool) option" where
  "stagesBeforeVowelSwaps rt part =
     do {
       segs \<leftarrow> suffixStagesBeforeAH rt part;
       let (segs, endingChangedToAH) = applyEndingAH rt segs;
       let segs = fst (replaceEndingAY rt segs);
       let segs = fst (replaceEndingYToEH rt segs);
       segs \<leftarrow> replaceStartingSNWithSAN rt segs;
       segs \<leftarrow> replaceStartingSWWithSAW rt segs;
       segs \<leftarrow> applyPrefixREToRO rt segs;
       segs \<leftarrow> applyClusterInsertions rt segs;
       Some (segs, endingChangedToAH)
     }"

fun hasPair :: "runtime \<Rightarrow> jsstring \<Rightarrow> jsstring \<Rightarrow> seg list \<Rightarrow> bool" where
  "hasPair rt a b (x # y # rest) =
     ((upper1 rt (ch x) = a \<and> upper1 rt (ch y) = b) \<or> hasPair rt a b (y # rest))"
| "hasPair rt a b segs = False"

function scanText :: "runtime \<Rightarrow> jsstring \<Rightarrow> jsstring option" where
  "scanText rt s =
     (if s = [] then Some []
      else case matchAt s of
             Some tok \<Rightarrow>
               do { t \<leftarrow> transformWordToken rt tok;
                    r \<leftarrow> scanText rt (drop (length tok) s);
                    Some (t @ r) }
           | None \<Rightarrow> do { r \<leftarrow> scanText rt (tl s); Some (hd s # r) })"
  by pat_completeness auto

termination
proof (relation "measure (\<lambda>(rt, s). length s)", goal_cases)
  case 1
  show ?case by simp
next
  case (2 rt s)
  then show ?case by simp
next
  case (3 rt s tok t)
  from 3(2) have "0 < length tok"
    by (cases s) (auto simp: matchAt_def split: if_splits)
  with 3(1) show ?case unfolding in_measure prod.case by (cases s) auto
qed

declare scanText.simps [simp del]

definition partOk :: "jsstring \<Rightarrow> bool" where
  "partOk p = (p = js ''-'' \<or> p = js [CHR 39] \<or> (p \<noteq> [] \<and> list_all isLetter p))"

fun collapseRuns :: "bool \<Rightarrow> jsstring \<Rightarrow> jsstring" where
  "collapseRuns inRun [] = []"
| "collapseRuns inRun (c # cs) =
     (if isLetter c then (if inRun then collapseRuns True cs else 65 # collapseRuns True cs)
      else c # collapseRuns False cs)"

definition skeleton :: "jsstring \<Rightarrow> jsstring" where
  "skeleton s = collapseRuns False s"

section \<open>Properties of the stages\<close>


lemma spliceSegs_tail:
  "k \<le> length segs \<Longrightarrow>
   spliceSegs segs (int (length segs) - int k) (int (length segs)) ins
     = take (length segs - k) segs @ ins"
  by (simp add: spliceSegs_def Let_def min_def max_def nat_diff_distrib')

lemma spliceSegs_pair:
  "Suc i < length segs \<Longrightarrow>
   spliceSegs segs (int i) (int i + 2) ins = take i segs @ ins @ drop (Suc (Suc i)) segs"
  by (simp add: spliceSegs_def Let_def min_def max_def nat_add_distrib)

lemma elemAt_Some [simp]: "i < length xs \<Longrightarrow> elemAt xs i = Some (xs ! i)"
  by (simp add: elemAt_def)

lemma elemAt_None [simp]: "length xs \<le> i \<Longrightarrow> elemAt xs i = None"
  by (simp add: elemAt_def)

lemma drop_two: "Suc i < length xs \<Longrightarrow> drop i xs = xs ! i # xs ! Suc i # drop (Suc (Suc i)) xs"
  by (simp add: Cons_nth_drop_Suc)

lemma ER_loop_scan:
  "i \<le> length segs \<Longrightarrow>
   replaceAllERWithAH_loop rt segs i
     = Some (take i segs @ pairScan rt (js ''E'') (js ''R'') (segFromString (js ''AH'') False) (drop i segs))"
proof (induction rt segs i rule: replaceAllERWithAH_loop.induct)
  case (1 rt segs i)
  let ?ins = "segFromString (js ''AH'') False"
  show ?case
  proof (cases "Suc i < length segs")
    case False
    then have "drop i segs = [] \<or> (\<exists>x. drop i segs = [x])"
      using 1(3) by (metis Cons_nth_drop_Suc drop_all le_neq_implies_less linorder_not_le not_less_eq)
    then have "pairScan rt (js ''E'') (js ''R'') ?ins (drop i segs) = drop i segs"
      by auto
    with False show ?thesis
      by (subst replaceAllERWithAH_loop.simps) simp
  next
    case True
    note d = drop_two [OF True]
    show ?thesis
    proof (cases "upper1 rt (ch (segs ! i)) = js ''E'' \<and> upper1 rt (ch (segs ! Suc i)) = js ''R''")
      case yes: True
      let ?s = "spliceSegs segs (int i) (int i + 2) ?ins"
      have sp: "?s = take i segs @ ?ins @ drop (i + 2) segs"
        using spliceSegs_pair [OF True] by simp
      have len: "length ?ins = 2" by (simp add: segFromString_def js_def)
      have "replaceAllERWithAH_loop rt ?s (i + 1 + 1)
              = Some (take (i + 1 + 1) ?s @ pairScan rt (js ''E'') (js ''R'') ?ins (drop (i + 1 + 1) ?s))"
        using 1(1) [of "elemAt segs i" "elemAt segs (i + 1)" "segs ! i" "segs ! Suc i"]
          True yes sp len by simp
      moreover have "take (i + 1 + 1) ?s = take i segs @ ?ins"
        using True len by (simp add: sp)
      moreover have "drop (i + 1 + 1) ?s = drop (i + 2) segs"
        using True len by (simp add: sp)
      ultimately show ?thesis
        using True yes by (subst replaceAllERWithAH_loop.simps) (simp add: d)
    next
      case no: False
      have "replaceAllERWithAH_loop rt segs (i + 1)
              = Some (take (i + 1) segs @ pairScan rt (js ''E'') (js ''R'') ?ins (drop (i + 1) segs))"
        using 1(2) [of "elemAt segs i" "elemAt segs (i + 1)" "segs ! i" "segs ! Suc i"]
          True no by simp
      moreover have "take (i + 1) segs = take i segs @ [segs ! i]"
        using True by (simp add: take_Suc_conv_app_nth)
      moreover have "drop (i + 1) segs = segs ! Suc i # drop (Suc (Suc i)) segs"
        using True by (simp add: Cons_nth_drop_Suc)
      ultimately show ?thesis
        using True no by (subst replaceAllERWithAH_loop.simps) (auto simp add: d)
    qed
  qed
qed

lemma IR_loop_scan:
  "i \<le> length segs \<Longrightarrow>
   replaceAllIRWithAR_loop rt segs i
     = Some (take i segs @ pairScan rt (js ''I'') (js ''R'') (segFromString (js ''AR'') False) (drop i segs))"
proof (induction rt segs i rule: replaceAllIRWithAR_loop.induct)
  case (1 rt segs i)
  let ?ins = "segFromString (js ''AR'') False"
  show ?case
  proof (cases "Suc i < length segs")
    case False
    then have "drop i segs = [] \<or> (\<exists>x. drop i segs = [x])"
      using 1(3) by (metis Cons_nth_drop_Suc drop_all le_neq_implies_less linorder_not_le not_less_eq)
    then have "pairScan rt (js ''I'') (js ''R'') ?ins (drop i segs) = drop i segs"
      by auto
    with False show ?thesis
      by (subst replaceAllIRWithAR_loop.simps) simp
  next
    case True
    note d = drop_two [OF True]
    show ?thesis
    proof (cases "upper1 rt (ch (segs ! i)) = js ''I'' \<and> upper1 rt (ch (segs ! Suc i)) = js ''R''")
      case yes: True
      let ?s = "spliceSegs segs (int i) (int i + 2) ?ins"
      have sp: "?s = take i segs @ ?ins @ drop (i + 2) segs"
        using spliceSegs_pair [OF True] by simp
      have len: "length ?ins = 2" by (simp add: segFromString_def js_def)
      have "replaceAllIRWithAR_loop rt ?s (i + 1 + 1)
              = Some (take (i + 1 + 1) ?s @ pairScan rt (js ''I'') (js ''R'') ?ins (drop (i + 1 + 1) ?s))"
        using 1(1) [of "elemAt segs i" "elemAt segs (i + 1)" "segs ! i" "segs ! Suc i"]
          True yes sp len by simp
      moreover have "take (i + 1 + 1) ?s = take i segs @ ?ins"
        using True len by (simp add: sp)
      moreover have "drop (i + 1 + 1) ?s = drop (i + 2) segs"
        using True len by (simp add: sp)
      ultimately show ?thesis
        using True yes by (subst replaceAllIRWithAR_loop.simps) (simp add: d)
    next
      case no: False
      have "replaceAllIRWithAR_loop rt segs (i + 1)
              = Some (take (i + 1) segs @ pairScan rt (js ''I'') (js ''R'') ?ins (drop (i + 1) segs))"
        using 1(2) [of "elemAt segs i" "elemAt segs (i + 1)" "segs ! i" "segs ! Suc i"]
          True no by simp
      moreover have "take (i + 1) segs = take i segs @ [segs ! i]"
        using True by (simp add: take_Suc_conv_app_nth)
      moreover have "drop (i + 1) segs = segs ! Suc i # drop (Suc (Suc i)) segs"
        using True by (simp add: Cons_nth_drop_Suc)
      ultimately show ?thesis
        using True no by (subst replaceAllIRWithAR_loop.simps) (auto simp add: d)
    qed
  qed
qed

lemma segFromString_synth:
  "list_all isLetter str \<Longrightarrow> set (segFromString str False) \<subseteq> synth"
  by (auto simp: segFromString_def synth_def list_all_iff)

lemma spliceSegs_subset: "set (spliceSegs segs a b ins) \<subseteq> set segs \<union> set ins"
  unfolding spliceSegs_def Let_def
  using set_take_subset [of _ segs] set_drop_subset [of _ segs] by fastforce

lemma spliceSegs_synth:
  "list_all isLetter str \<Longrightarrow>
   set (spliceSegs segs a b (segFromString str False)) \<subseteq> set segs \<union> synth"
  using spliceSegs_subset [of segs a b "segFromString str False"] segFromString_synth [of str]
  by blast

lemma pairScan_subset: "set (pairScan rt a b ins segs) \<subseteq> set segs \<union> set ins"
  by (induction rt a b ins segs rule: pairScan.induct) auto

lemma replaceAllERWithAH_scan:
  "replaceAllERWithAH rt segs
     = Some (pairScan rt (js ''E'') (js ''R'') (segFromString (js ''AH'') False) segs)"
  by (simp add: replaceAllERWithAH_def ER_loop_scan)

lemma replaceAllIRWithAR_scan:
  "replaceAllIRWithAR rt segs
     = Some (pairScan rt (js ''I'') (js ''R'') (segFromString (js ''AR'') False) segs)"
  by (simp add: replaceAllIRWithAR_def IR_loop_scan)

lemma replaceAllERWithAH_synth:
  "replaceAllERWithAH rt segs = Some r \<Longrightarrow> set r \<subseteq> set segs \<union> synth"
  using pairScan_subset [of rt "js ''E''" "js ''R''" "segFromString (js ''AH'') False" segs]
    segFromString_synth [of "js ''AH''"]
  by (auto simp: replaceAllERWithAH_scan js_def isLetter_def)

lemma replaceAllIRWithAR_synth:
  "replaceAllIRWithAR rt segs = Some r \<Longrightarrow> set r \<subseteq> set segs \<union> synth"
  using pairScan_subset [of rt "js ''I''" "js ''R''" "segFromString (js ''AR'') False" segs]
    segFromString_synth [of "js ''AR''"]
  by (auto simp: replaceAllIRWithAR_scan js_def isLetter_def)

lemma letters_lit [simp]:
  "list_all isLetter (js ''AH'')" "list_all isLetter (js ''AR'')"
  "list_all isLetter (js ''SHAN'')" "list_all isLetter (js ''TEH'')"
  "list_all isLetter (js ''AEH'')" "list_all isLetter (js ''LEH'')"
  "list_all isLetter (js ''EH'')" "list_all isLetter (js ''SAW'')"
  "list_all isLetter (js ''SAN'')" "list_all isLetter (js ''ro'')"
  "list_all isLetter (js ''A'')"
  by (simp_all add: js_def isLetter_def)

lemma replaceEndingTION_synth: "set (fst (replaceEndingTION rt segs)) \<subseteq> set segs \<union> synth"
  by (simp add: replaceEndingTION_def Let_def spliceSegs_synth)

lemma replaceEndingTY_synth: "set (fst (replaceEndingTY rt segs)) \<subseteq> set segs \<union> synth"
  by (simp add: replaceEndingTY_def Let_def spliceSegs_synth)

lemma replaceEndingAY_synth: "set (fst (replaceEndingAY rt segs)) \<subseteq> set segs \<union> synth"
  by (simp add: replaceEndingAY_def Let_def spliceSegs_synth)

lemma replaceEndingLY_synth: "set (replaceEndingLY rt segs) \<subseteq> set segs \<union> synth"
  by (simp add: replaceEndingLY_def Let_def spliceSegs_synth)

lemma replaceEndingYToEH_synth: "set (fst (replaceEndingYToEH rt segs)) \<subseteq> set segs \<union> synth"
  by (simp add: replaceEndingYToEH_def Let_def spliceSegs_synth)

lemma applyEndingAH_synth: "set (fst (applyEndingAH rt segs)) \<subseteq> set segs \<union> synth"
  by (simp add: applyEndingAH_def Let_def spliceSegs_synth)

lemma elemAt_simps [simp]:
  "elemAt [] i = None"
  "elemAt (x # xs) 0 = Some x"
  "elemAt (x # xs) (Suc i) = elemAt xs i"
  "elemAt (x # xs) 1 = elemAt xs 0"
  "elemAt (x # y # xs) 2 = elemAt xs 0"
  by (simp_all add: elemAt_def)

lemma list_shape3:
  obtains "xs = []" | x where "xs = [x]" | x y where "xs = [x, y]"
  | x y z zs where "xs = x # y # z # zs"
  by (cases xs; cases "tl xs"; cases "tl (tl xs)") auto

lemma replaceStartingSNWithSAN_eq:
  "replaceStartingSNWithSAN rt segs =
     Some (if length segs \<ge> 2 \<and> upper1 rt (ch (segs ! 0)) = js ''S''
              \<and> upper1 rt (ch (segs ! 1)) = js ''N''
           then spliceSegs segs 0 2 (segFromString (js ''SAN'') False) else segs)"
  by (cases segs rule: list_shape3) (simp_all add: replaceStartingSNWithSAN_def)

lemma replaceStartingSWWithSAW_eq:
  "replaceStartingSWWithSAW rt segs =
     Some (if length segs \<ge> 2 \<and> upper1 rt (ch (segs ! 0)) = js ''S''
              \<and> upper1 rt (ch (segs ! 1)) = js ''W''
           then spliceSegs segs 0 2 (segFromString (js ''SAW'') False) else segs)"
  by (cases segs rule: list_shape3) (simp_all add: replaceStartingSWWithSAW_def)

lemma applyPrefixREToRO_eq:
  "applyPrefixREToRO rt segs =
     Some (if toLowerCase rt (segToString segs) \<noteq> js ''re''
              \<and> startsWith (toLowerCase rt (segToString segs)) (js ''re'')
              \<and> length segs \<ge> 3 \<and> upper1 rt (ch (segs ! 2)) \<in> set VOWELS
           then spliceSegs segs 0 2 (segFromString (js ''ro'') False) else segs)"
  by (simp add: applyPrefixREToRO_def Let_def segToString_def)

lemma applyClusterInsertions_eq:
  "applyClusterInsertions rt segs =
     Some (if length segs \<ge> 3 \<and> isConsonantLetter rt (ch (segs ! 0))
              \<and> isConsonantLetter rt (ch (segs ! 1)) \<and> upper1 rt (ch (segs ! 2)) = js ''R''
           then spliceSegs segs 2 2 (segFromString (js ''A'') False)
           else if length segs \<ge> 2 \<and> isConsonantLetter rt (ch (segs ! 0))
              \<and> (upper1 rt (ch (segs ! 1)) = js ''R'' \<or> upper1 rt (ch (segs ! 1)) = js ''L'')
           then spliceSegs segs 1 1 (segFromString (js ''A'') False)
           else segs)"
  by (cases segs rule: list_shape3) (auto simp: applyClusterInsertions_def Let_def)

lemma replaceStartingSNWithSAN_synth:
  "replaceStartingSNWithSAN rt segs = Some r \<Longrightarrow> set r \<subseteq> set segs \<union> synth"
  using spliceSegs_synth [of "js ''SAN''" segs 0 2]
  by (auto simp: replaceStartingSNWithSAN_eq split: if_splits)

lemma replaceStartingSWWithSAW_synth:
  "replaceStartingSWWithSAW rt segs = Some r \<Longrightarrow> set r \<subseteq> set segs \<union> synth"
  using spliceSegs_synth [of "js ''SAW''" segs 0 2]
  by (auto simp: replaceStartingSWWithSAW_eq split: if_splits)

lemma applyPrefixREToRO_synth:
  "applyPrefixREToRO rt segs = Some r \<Longrightarrow> set r \<subseteq> set segs \<union> synth"
  using spliceSegs_synth [of "js ''ro''" segs 0 2]
  by (auto simp: applyPrefixREToRO_eq split: if_splits)

lemma applyClusterInsertions_synth:
  "applyClusterInsertions rt segs = Some r \<Longrightarrow> set r \<subseteq> set segs \<union> synth"
  using spliceSegs_synth [of "js ''A''" segs 2 2] spliceSegs_synth [of "js ''A''" segs 1 1]
  by (auto simp: applyClusterInsertions_eq split: if_splits)

lemma origVowelIdx_loop_eq:
  "i \<le> length segs \<Longrightarrow>
   origVowelIdx_loop rt segs i acc
     = Some (acc @ filter (\<lambda>i. origin (segs ! i) \<and> upper1 rt (ch (segs ! i)) \<in> set VOWELS)
                     [i..<length segs])"
proof (induction rt segs i acc rule: origVowelIdx_loop.induct)
  case (1 rt segs i acc)
  show ?case
  proof (cases "i < length segs")
    case False
    with 1(4) show ?thesis by (subst origVowelIdx_loop.simps) simp
  next
    case True
    note e = elemAt_Some [OF True]
    have u: "[i..<length segs] = i # [i + 1..<length segs]"
      using True by (simp add: upt_conv_Cons)
    from True have le: "i + 1 \<le> length segs" by simp
    show ?thesis
      using 1(1) [OF True e _ le] 1(2) [OF True e _ _ le] 1(3) [OF True e _ _ le] True
      by (subst origVowelIdx_loop.simps) (simp add: u)
  qed
qed

lemma origVowelIdx_loop_positions:
  "origVowelIdx_loop rt segs 0 [] = Some (origVowelPositions rt segs)"
  by (simp add: origVowelIdx_loop_eq origVowelPositions_def)

lemma next_upper:
  "(case elemAt segs (Suc i) of None \<Rightarrow> [] | Some y \<Rightarrow> upper1 rt (ch y))
     = (if Suc i < length segs then upper1 rt (ch (segs ! Suc i)) else [])"
  by (simp add: elemAt_def)

lemma swap_loop_step:
  "i < length segs \<Longrightarrow>
   swap_loop rt b ps segs i =
     (if swapCond rt b ps segs i
      then swap_loop rt b ps (segs[i := \<lparr> ch = 111, origin = False \<rparr>]) (Suc i)
      else swap_loop rt b ps segs (Suc i))"
  by (subst swap_loop.simps) (simp add: swapCond_def next_upper not_le)

lemma swap_loop_stop: "length segs \<le> i \<Longrightarrow> swap_loop rt b ps segs i = Some segs"
  by (subst swap_loop.simps) simp

lemma swap_loop_eq:
  "swap_loop rt b ps segs i =
     Some (map (\<lambda>k. if i \<le> k \<and> swapCond rt b ps segs k
                     then \<lparr> ch = 111, origin = False \<rparr> else segs ! k) [0..<length segs])"
proof (induction "length segs - i" arbitrary: segs i)
  case 0
  then have le: "length segs \<le> i" by simp
  then have "map (\<lambda>k. if i \<le> k \<and> swapCond rt b ps segs k
                     then \<lparr> ch = 111, origin = False \<rparr> else segs ! k) [0..<length segs] = segs"
    by (intro nth_equalityI) auto
  with le show ?case by (simp add: swap_loop_stop)
next
  case (Suc n)
  let ?o = "\<lparr> ch = 111, origin = False \<rparr>"
  let ?res = "\<lambda>segs i. map (\<lambda>k. if i \<le> k \<and> swapCond rt b ps segs k then ?o else segs ! k)
                            [0..<length segs]"
  from Suc(2) have lt: "i < length segs" by simp
  show ?case
  proof (cases "swapCond rt b ps segs i")
    case False
    have "n = length segs - Suc i" using Suc(2) by simp
    then have ih: "swap_loop rt b ps segs (Suc i) = Some (?res segs (Suc i))"
      by (rule Suc(1))
    have "?res segs (Suc i) = ?res segs i"
    proof (intro nth_equalityI)
      fix k assume "k < length (?res segs (Suc i))"
      then have k: "k < length segs" by simp
      show "?res segs (Suc i) ! k = ?res segs i ! k"
        using False k by (cases "k = i") (auto simp: Suc_le_eq le_less)
    qed simp
    with ih False lt show ?thesis by (simp add: swap_loop_step)
  next
    case True
    let ?s = "segs[i := ?o]"
    have "n = length ?s - Suc i" using Suc(2) by simp
    then have ih: "swap_loop rt b ps ?s (Suc i) = Some (?res ?s (Suc i))"
      by (rule Suc(1))
    have "?res ?s (Suc i) = ?res segs i"
    proof (intro nth_equalityI)
      fix k assume "k < length (?res ?s (Suc i))"
      then have k: "k < length segs" by simp
      have cond: "Suc i \<le> k \<Longrightarrow> swapCond rt b ps ?s k = swapCond rt b ps segs k"
        by (simp add: swapCond_def)
      show "?res ?s (Suc i) ! k = ?res segs i ! k"
      proof (cases "Suc i \<le> k")
        case True
        with k cond show ?thesis by simp
      next
        case False
        then have "k < i \<or> k = i" by auto
        with k \<open>swapCond rt b ps segs i\<close> show ?thesis by auto
      qed
    qed simp
    with ih True lt show ?thesis by (simp add: swap_loop_step)
  qed
qed

lemma transformWordPart_stages:
  "transformWordPart rt part =
     (if fst (applyExceptions rt part) then Some (toUpperCase rt (snd (applyExceptions rt part)))
      else do {
        (segs, endingChangedToAH) \<leftarrow> stagesBeforeVowelSwaps rt part;
        segs \<leftarrow> applyVowelSwaps rt segs endingChangedToAH;
        Some (toUpperCase rt (segToString segs))
      })"
proof -
  obtain s1 where s1: "replaceAllERWithAH rt (segFromString part True) = Some s1"
    by (simp add: replaceAllERWithAH_scan)
  obtain s2 where s2: "replaceAllIRWithAR rt s1 = Some s2"
    by (simp add: replaceAllIRWithAR_scan)
  let ?s5 = "replaceEndingLY rt (fst (replaceEndingTY rt (fst (replaceEndingTION rt s2))))"
  obtain s6 flag where s6: "applyEndingAH rt ?s5 = (s6, flag)"
    by (cases "applyEndingAH rt ?s5")
  let ?s8 = "fst (replaceEndingYToEH rt (fst (replaceEndingAY rt s6)))"
  obtain s9 where s9: "replaceStartingSNWithSAN rt ?s8 = Some s9"
    by (simp add: replaceStartingSNWithSAN_eq)
  obtain s10 where s10: "replaceStartingSWWithSAW rt s9 = Some s10"
    by (simp add: replaceStartingSWWithSAW_eq)
  obtain s11 where s11: "applyPrefixREToRO rt s10 = Some s11"
    by (simp add: applyPrefixREToRO_eq)
  obtain s12 where s12: "applyClusterInsertions rt s11 = Some s12"
    by (simp add: applyClusterInsertions_eq)
  show ?thesis
    by (simp add: transformWordPart_def stagesBeforeVowelSwaps_def suffixStagesBeforeAH_def
        Let_def s1 s2 s6 s9 s10 s11 s12)
qed

lemma applyVowelSwaps_eq:
  "applyVowelSwaps rt segs flag =
     Some (map (\<lambda>k. if swapCond rt (protectedSuffixStartIndex rt segs)
                         (protectSetOf flag (origVowelPositions rt segs)) segs k
                     then \<lparr> ch = 111, origin = False \<rparr> else segs ! k) [0..<length segs])"
  by (simp add: applyVowelSwaps_def Let_def origVowelIdx_loop_positions swap_loop_eq)

lemma applyVowelSwaps_synth:
  assumes "applyVowelSwaps rt segs flag = Some r"
  shows "set r \<subseteq> set segs \<union> synth"
proof -
  have "\<lparr> ch = 111, origin = False \<rparr> \<in> synth" by (simp add: synth_def isLetter_def)
  with assms show ?thesis
    unfolding applyVowelSwaps_eq by auto
qed

lemma suffixStagesBeforeAH_total:
  "\<exists>segs. suffixStagesBeforeAH rt part = Some segs
          \<and> set segs \<subseteq> set (segFromString part True) \<union> synth"
proof -
  let ?s0 = "segFromString part True"
  obtain s1 where s1: "replaceAllERWithAH rt ?s0 = Some s1"
    by (simp add: replaceAllERWithAH_scan)
  obtain s2 where s2: "replaceAllIRWithAR rt s1 = Some s2"
    by (simp add: replaceAllIRWithAR_scan)
  let ?s3 = "fst (replaceEndingTION rt s2)"
  let ?s4 = "fst (replaceEndingTY rt ?s3)"
  let ?s5 = "replaceEndingLY rt ?s4"
  have "suffixStagesBeforeAH rt part = Some ?s5"
    by (simp add: suffixStagesBeforeAH_def s1 s2)
  moreover have "set ?s5 \<subseteq> set ?s0 \<union> synth"
    using replaceAllERWithAH_synth [OF s1] replaceAllIRWithAR_synth [OF s2]
      replaceEndingTION_synth [of rt s2] replaceEndingTY_synth [of rt ?s3]
      replaceEndingLY_synth [of rt ?s4]
    by blast
  ultimately show ?thesis by blast
qed

lemma stagesBeforeVowelSwaps_total:
  "\<exists>segs flag. stagesBeforeVowelSwaps rt part = Some (segs, flag)
          \<and> set segs \<subseteq> set (segFromString part True) \<union> synth"
proof -
  let ?s0 = "segFromString part True"
  obtain s5 where s5: "suffixStagesBeforeAH rt part = Some s5" "set s5 \<subseteq> set ?s0 \<union> synth"
    using suffixStagesBeforeAH_total by blast
  obtain s6 flag where s6: "applyEndingAH rt s5 = (s6, flag)" by (cases "applyEndingAH rt s5")
  let ?s7 = "fst (replaceEndingAY rt s6)"
  let ?s8 = "fst (replaceEndingYToEH rt ?s7)"
  obtain s9 where s9: "replaceStartingSNWithSAN rt ?s8 = Some s9"
    by (simp add: replaceStartingSNWithSAN_eq)
  obtain s10 where s10: "replaceStartingSWWithSAW rt s9 = Some s10"
    by (simp add: replaceStartingSWWithSAW_eq)
  obtain s11 where s11: "applyPrefixREToRO rt s10 = Some s11"
    by (simp add: applyPrefixREToRO_eq)
  obtain s12 where s12: "applyClusterInsertions rt s11 = Some s12"
    by (simp add: applyClusterInsertions_eq)
  have "stagesBeforeVowelSwaps rt part = Some (s12, flag)"
    by (simp add: stagesBeforeVowelSwaps_def s5 s6 s9 s10 s11 s12)
  moreover have "set s6 \<subseteq> set s5 \<union> synth"
    using applyEndingAH_synth [of rt s5] by (simp add: s6)
  then have "set s12 \<subseteq> set ?s0 \<union> synth"
    using s5(2) replaceEndingAY_synth [of rt s6] replaceEndingYToEH_synth [of rt ?s7]
      replaceStartingSNWithSAN_synth [OF s9] replaceStartingSWWithSAW_synth [OF s10]
      applyPrefixREToRO_synth [OF s11] applyClusterInsertions_synth [OF s12]
    by blast
  ultimately show ?thesis by blast
qed

lemma stagesBeforeVowelSwaps_flag:
  assumes "suffixStagesBeforeAH rt part = Some s5"
  shows "\<exists>segs. stagesBeforeVowelSwaps rt part = Some (segs, snd (applyEndingAH rt s5))"
proof -
  obtain s6 flag where s6: "applyEndingAH rt s5 = (s6, flag)" by (cases "applyEndingAH rt s5")
  let ?s8 = "fst (replaceEndingYToEH rt (fst (replaceEndingAY rt s6)))"
  obtain s9 where s9: "replaceStartingSNWithSAN rt ?s8 = Some s9"
    by (simp add: replaceStartingSNWithSAN_eq)
  obtain s10 where s10: "replaceStartingSWWithSAW rt s9 = Some s10"
    by (simp add: replaceStartingSWWithSAW_eq)
  obtain s11 where s11: "applyPrefixREToRO rt s10 = Some s11"
    by (simp add: applyPrefixREToRO_eq)
  obtain s12 where s12: "applyClusterInsertions rt s11 = Some s12"
    by (simp add: applyClusterInsertions_eq)
  have "stagesBeforeVowelSwaps rt part = Some (s12, flag)"
    by (simp add: stagesBeforeVowelSwaps_def assms s6 s9 s10 s11 s12)
  then show ?thesis by (simp add: s6)
qed

lemma transformWordPart_pipeline:
  assumes "\<not> fst (applyExceptions rt part)"
  shows "\<exists>segs. transformWordPart rt part = Some (toUpperCase rt (segToString segs))
          \<and> set segs \<subseteq> set (segFromString part True) \<union> synth"
proof -
  obtain s f where sf: "stagesBeforeVowelSwaps rt part = Some (s, f)"
    "set s \<subseteq> set (segFromString part True) \<union> synth"
    using stagesBeforeVowelSwaps_total by blast
  obtain r where r: "applyVowelSwaps rt s f = Some r"
    by (simp add: applyVowelSwaps_eq)
  have "transformWordPart rt part = Some (toUpperCase rt (segToString r))"
    using assms by (simp add: transformWordPart_stages sf r)
  moreover have "set r \<subseteq> set (segFromString part True) \<union> synth"
    using applyVowelSwaps_synth [OF r] sf(2) by blast
  ultimately show ?thesis by blast
qed

lemma transformWordPart_total: "\<exists>r. transformWordPart rt part = Some r"
proof (cases "fst (applyExceptions rt part)")
  case True
  then show ?thesis by (simp add: transformWordPart_stages)
next
  case False
  then show ?thesis using transformWordPart_pipeline by blast
qed

lemma hasPair_Cons:
  "hasPair rt a b (x # zs) =
     ((zs \<noteq> [] \<and> upper1 rt (ch x) = a \<and> upper1 rt (ch (hd zs)) = b) \<or> hasPair rt a b zs)"
  by (cases zs) auto

lemma hasPair_append:
  "hasPair rt a b (xs @ ys) =
     (hasPair rt a b xs \<or> hasPair rt a b ys
      \<or> (xs \<noteq> [] \<and> ys \<noteq> [] \<and> upper1 rt (ch (last xs)) = a \<and> upper1 rt (ch (hd ys)) = b))"
proof (induction xs)
  case Nil
  show ?case by simp
next
  case (Cons x xs)
  show ?case
    unfolding append_Cons hasPair_Cons [of rt a b x] Cons.IH
    by (cases xs) auto
qed

lemma hasPair_take: "hasPair rt a b (take n xs) \<Longrightarrow> hasPair rt a b xs"
  using hasPair_append [of rt a b "take n xs" "drop n xs"] by simp

lemma pairScan_hd:
  "pairScan rt a b ins (y # rest) \<noteq> [] \<Longrightarrow>
   hd (pairScan rt a b ins (y # rest)) = y
   \<or> (ins \<noteq> [] \<and> hd (pairScan rt a b ins (y # rest)) = hd ins)
   \<or> (ins = [] \<and> rest \<noteq> [] \<and> upper1 rt (ch y) = a \<and> upper1 rt (ch (hd rest)) = b)"
  by (cases rest) auto

lemma upper1_AH [simp]:
  "upper1 rt 65 = [65]" "upper1 rt 72 = [72]" "upper1 rt 82 = [82]"
  by (simp_all add: upper1_def asciiUpper_def)

lemma ER_scan_noER:
  "\<not> hasPair rt (js ''E'') (js ''R'')
       (pairScan rt (js ''E'') (js ''R'') (segFromString (js ''AH'') False) segs)"
proof (induction rt "js ''E''" "js ''R''" "segFromString (js ''AH'') False" segs
    rule: pairScan.induct)
  case (1 rt x y rest)
  let ?scan = "pairScan rt (js ''E'') (js ''R'') (segFromString (js ''AH'') False)"
  show ?case
  proof (cases "upper1 rt (ch x) = js ''E'' \<and> upper1 rt (ch y) = js ''R''")
    case True
    with 1(1) show ?thesis
      by (simp add: hasPair_Cons segFromString_def js_def)
  next
    case False
    have ih: "\<not> hasPair rt (js ''E'') (js ''R'') (?scan (y # rest))"
      using 1(2) False by simp
    have "?scan (y # rest) \<noteq> []" by (cases rest) (auto simp: segFromString_def js_def)
    from pairScan_hd [OF this]
    have "\<not> (upper1 rt (ch x) = js ''E'' \<and> upper1 rt (ch (hd (?scan (y # rest)))) = js ''R'')"
      using False by (auto simp: segFromString_def js_def)
    moreover have "?scan (x # y # rest) = x # ?scan (y # rest)"
      using False by auto
    ultimately show ?thesis
      using ih by (simp only: hasPair_Cons) simp
  qed
qed simp_all

lemma IR_scan_noER:
  "\<not> hasPair rt (js ''E'') (js ''R'') segs \<Longrightarrow>
   \<not> hasPair rt (js ''E'') (js ''R'')
       (pairScan rt (js ''I'') (js ''R'') (segFromString (js ''AR'') False) segs)"
proof (induction rt "js ''I''" "js ''R''" "segFromString (js ''AR'') False" segs
    rule: pairScan.induct)
  case (1 rt x y rest)
  let ?scan = "pairScan rt (js ''I'') (js ''R'') (segFromString (js ''AR'') False)"
  from 1(3) have nxy: "\<not> (upper1 rt (ch x) = js ''E'' \<and> upper1 rt (ch y) = js ''R'')"
    and nrest: "\<not> hasPair rt (js ''E'') (js ''R'') (y # rest)"
    by simp_all
  show ?case
  proof (cases "upper1 rt (ch x) = js ''I'' \<and> upper1 rt (ch y) = js ''R''")
    case True
    from nrest have "\<not> hasPair rt (js ''E'') (js ''R'') rest"
      by (simp add: hasPair_Cons)
    with 1(1) True show ?thesis
      by (simp add: hasPair_Cons segFromString_def js_def)
  next
    case False
    have ih: "\<not> hasPair rt (js ''E'') (js ''R'') (?scan (y # rest))"
      using 1(2) False nrest by simp
    have "?scan (y # rest) \<noteq> []" by (cases rest) (auto simp: segFromString_def js_def)
    from pairScan_hd [OF this]
    have "\<not> (upper1 rt (ch x) = js ''E'' \<and> upper1 rt (ch (hd (?scan (y # rest)))) = js ''R'')"
      using nxy by (auto simp: segFromString_def js_def)
    moreover have "?scan (x # y # rest) = x # ?scan (y # rest)"
      using False by auto
    ultimately show ?thesis
      using ih by (simp only: hasPair_Cons) simp
  qed
qed simp_all

lemma noER_tail:
  assumes "\<not> hasPair rt (js ''E'') (js ''R'') segs"
    and "\<not> hasPair rt (js ''E'') (js ''R'') ins"
    and "ins \<noteq> []" and "upper1 rt (ch (hd ins)) \<noteq> js ''R''"
    and "k \<le> length segs"
  shows "\<not> hasPair rt (js ''E'') (js ''R'')
           (spliceSegs segs (int (length segs) - int k) (int (length segs)) ins)"
  using assms hasPair_take [of rt "js ''E''" "js ''R''" "length segs - k" segs]
  by (auto simp: spliceSegs_tail hasPair_append)

lemma noER_TION:
  "\<not> hasPair rt (js ''E'') (js ''R'') segs \<Longrightarrow>
   \<not> hasPair rt (js ''E'') (js ''R'') (fst (replaceEndingTION rt segs))"
  using noER_tail [of rt segs "segFromString (js ''SHAN'') False" 4]
  by (simp add: replaceEndingTION_def Let_def segFromString_def js_def upper1_def asciiUpper_def)

lemma noER_TY:
  "\<not> hasPair rt (js ''E'') (js ''R'') segs \<Longrightarrow>
   \<not> hasPair rt (js ''E'') (js ''R'') (fst (replaceEndingTY rt segs))"
  using noER_tail [of rt segs "segFromString (js ''TEH'') False" 2]
  by (simp add: replaceEndingTY_def Let_def segFromString_def js_def upper1_def asciiUpper_def)

lemma noER_LY:
  "\<not> hasPair rt (js ''E'') (js ''R'') segs \<Longrightarrow>
   \<not> hasPair rt (js ''E'') (js ''R'') (replaceEndingLY rt segs)"
  using noER_tail [of rt segs "segFromString (js ''LEH'') False" 3]
    noER_tail [of rt segs "segFromString (js ''LEH'') False" 2]
  by (simp add: replaceEndingLY_def Let_def segFromString_def js_def upper1_def asciiUpper_def)

lemma suffixStagesBeforeAH_noER:
  assumes "suffixStagesBeforeAH rt part = Some segs"
  shows "\<not> hasPair rt (js ''E'') (js ''R'') segs"
proof -
  let ?s1 = "pairScan rt (js ''E'') (js ''R'') (segFromString (js ''AH'') False)
               (segFromString part True)"
  let ?s2 = "pairScan rt (js ''I'') (js ''R'') (segFromString (js ''AR'') False) ?s1"
  have "segs = replaceEndingLY rt (fst (replaceEndingTY rt (fst (replaceEndingTION rt ?s2))))"
    using assms
    by (simp add: suffixStagesBeforeAH_def replaceAllERWithAH_scan replaceAllIRWithAR_scan)
  then show ?thesis
    using ER_scan_noER [of rt "segFromString part True"]
    by (simp add: IR_scan_noER noER_TION noER_TY noER_LY)
qed

lemma toUpperCase_ascii:
  "list_all (\<lambda>c. c < 128) s \<Longrightarrow> toUpperCase rt s = map asciiUpper s"
  by (induction s) (simp_all add: toUpperCase_def upper1_def)

lemma endsWith_ER_hasPair:
  assumes "\<forall>x \<in> set segs. ch x < 128"
    and "endsWith (toUpperCase rt (segToString segs)) (js ''ER'')"
  shows "hasPair rt (js ''E'') (js ''R'') segs"
proof -
  let ?n = "length segs"
  have up: "toUpperCase rt (segToString segs) = map (asciiUpper \<circ> ch) segs"
    using assms(1) by (simp add: toUpperCase_ascii segToString_def list_all_iff)
  from assms(2) have len: "2 \<le> ?n"
    and dr: "drop (?n - 2) (map (asciiUpper \<circ> ch) segs) = [69, 82]"
    unfolding up endsWith_def by (simp_all add: js_def numeral_2_eq_2)
  obtain x y where xy: "drop (?n - 2) segs = [x, y]"
  proof -
    have "length (drop (?n - 2) segs) = 2" using len by simp
    then show ?thesis
      using that by (cases "drop (?n - 2) segs" rule: list_shape3) auto
  qed
  from dr have "asciiUpper (ch x) = 69" "asciiUpper (ch y) = 82"
    by (simp_all add: drop_map xy)
  moreover have "x \<in> set segs" "y \<in> set segs"
    using xy set_drop_subset [of "?n - 2" segs] by auto
  ultimately have "upper1 rt (ch x) = js ''E''" "upper1 rt (ch y) = js ''R''"
    using assms(1) by (simp_all add: upper1_def js_def)
  then have "hasPair rt (js ''E'') (js ''R'') (take (?n - 2) segs @ [x, y])"
    by (simp add: hasPair_append)
  then show ?thesis
    using append_take_drop_id [of "?n - 2" segs] by (simp add: xy)
qed

lemma synth_ascii: "x \<in> synth \<Longrightarrow> ch x < 128"
  by (auto simp: synth_def isLetter_def)

lemma applyExceptionsIn_find:
  "applyExceptionsIn rt tbl part =
     (case find (\<lambda>ex. exMatches rt ex part) tbl of
        None \<Rightarrow> (False, part)
      | Some ex \<Rightarrow> (True, exOutValue (exRuleOut ex) part))"
  by (induction tbl) simp_all

lemma origVowelPositions_bound:
  "k < length (origVowelPositions rt segs) \<Longrightarrow> origVowelPositions rt segs ! k < length segs"
  using nth_mem [of k "origVowelPositions rt segs"]
  by (auto simp: origVowelPositions_def)

lemma matchGroups_prefix: "\<exists>rest. s = matchGroups s @ rest"
proof (induction s rule: matchGroups.induct)
  case (1 s)
  show ?case
  proof (cases s rule: list_shape3)
    case 1
    then show ?thesis by (simp add: matchGroups.simps)
  next
    case (2 x)
    then show ?thesis by (simp add: matchGroups.simps)
  next
    case (3 x y)
    show ?thesis
    proof (cases "isSeparator x \<and> wordChar y")
      case True
      from 1 [OF 3 _ True] obtain rest where
        "dropWhile wordChar [y] = matchGroups (dropWhile wordChar [y]) @ rest"
        by blast
      with True 3 show ?thesis
        by (subst matchGroups.simps) (simp add: matchGroups.simps)
    next
      case False
      with 3 show ?thesis by (subst matchGroups.simps) auto
    qed
  next
    case (4 x y z zs)
    show ?thesis
    proof (cases "isSeparator x \<and> wordChar y")
      case True
      from 1 [OF 4 _ True] obtain rest where
        r: "dropWhile wordChar (y # z # zs)
             = matchGroups (dropWhile wordChar (y # z # zs)) @ rest"
        by blast
      have "s = x # takeWhile wordChar (y # z # zs) @ dropWhile wordChar (y # z # zs)"
        using 4 by simp
      also have "\<dots> = (x # takeWhile wordChar (y # z # zs)
                        @ matchGroups (dropWhile wordChar (y # z # zs))) @ rest"
        using r by simp
      also have "x # takeWhile wordChar (y # z # zs)
                   @ matchGroups (dropWhile wordChar (y # z # zs)) = matchGroups s"
        using True 4 by (subst (2) matchGroups.simps) simp
      finally show ?thesis by blast
    next
      case False
      with 4 show ?thesis by (subst matchGroups.simps) auto
    qed
  qed
qed

lemma matchAt_prefix:
  assumes "matchAt s = Some tok"
  shows "\<exists>rest. s = tok @ rest"
proof -
  from assms obtain c cs where s: "s = c # cs" and c: "wordChar c"
    and tok: "tok = takeWhile wordChar s @ matchGroups (dropWhile wordChar s)"
    by (cases s) (auto simp: matchAt_def split: if_splits)
  obtain rest where "dropWhile wordChar s = matchGroups (dropWhile wordChar s) @ rest"
    using matchGroups_prefix by blast
  then have "s = tok @ rest"
    unfolding tok using takeWhile_dropWhile_id [of wordChar s] by (metis append.assoc)
  then show ?thesis by blast
qed

lemma matchAt_nonempty: "matchAt s = Some tok \<Longrightarrow> tok \<noteq> []"
  by (cases s) (auto simp: matchAt_def split: if_splits)

lemma matchAt_take_drop:
  assumes "matchAt s = Some tok"
  shows "length tok \<le> length s" "take (length tok) s = tok"
  using matchAt_prefix [OF assms] by auto

lemma matchAt_None_hd: "s \<noteq> [] \<Longrightarrow> matchAt s = None \<Longrightarrow> \<not> wordChar (hd s)"
  by (cases s) (auto simp: matchAt_def split: if_splits)

lemma transformParts_total: "\<exists>qs. transformParts rt ps = Some qs"
proof (induction ps)
  case Nil
  show ?case by simp
next
  case (Cons p ps)
  then obtain qs where "transformParts rt ps = Some qs" by blast
  moreover obtain q where "transformWordPart rt p = Some q"
    using transformWordPart_total by blast
  ultimately show ?case by simp
qed

lemma transformWordToken_total: "\<exists>t. transformWordToken rt token = Some t"
  using transformParts_total [of rt "splitKeep token"]
  by (auto simp: transformWordToken_def)

lemma scanText_total: "\<exists>r. scanText rt s = Some r"
proof (induction rt s rule: scanText.induct)
  case (1 rt s)
  show ?case
  proof (cases "s = []")
    case True
    then show ?thesis by (subst scanText.simps) simp
  next
    case False
    show ?thesis
    proof (cases "matchAt s")
      case None
      with 1(1) [OF False None] False show ?thesis
        by (subst scanText.simps) auto
    next
      case (Some tok)
      obtain t where t: "transformWordToken rt tok = Some t"
        using transformWordToken_total by blast
      from 1(2) [OF False Some t] Some False t show ?thesis
        by (subst scanText.simps) auto
    qed
  qed
qed

lemma convertText_loop_scan:
  assumes "lastEnd \<le> i" and "i \<le> length input"
  shows "convertText_loop rt input (out, lastEnd) (matchAllFrom input i)
           \<bind> (\<lambda>(out', lastEnd'). Some (out' @ drop lastEnd' input))
         = scanText rt (drop i input) \<bind> (\<lambda>r. Some (out @ slice input lastEnd i @ r))"
  using assms
proof (induction "length input - i" arbitrary: i out lastEnd rule: less_induct)
  case less
  show ?case
  proof (cases "length input \<le> i")
    case True
    with less.prems have "i = length input" by simp
    then show ?thesis
      by (subst matchAllFrom.simps, subst scanText.simps) (simp add: slice_def)
  next
    case False
    then have ne: "drop i input \<noteq> []" by simp
    have hd: "hd (drop i input) = input ! i"
      using False by (simp add: hd_drop_conv_nth)
    show ?thesis
    proof (cases "matchAt (drop i input)")
      case None
      have sl: "slice input lastEnd (Suc i) = slice input lastEnd i @ [input ! i]"
        using False less.prems
        by (simp add: slice_def take_Suc_conv_app_nth Suc_diff_le)
      have ih: "convertText_loop rt input (out, lastEnd) (matchAllFrom input (i + 1))
           \<bind> (\<lambda>(out', lastEnd'). Some (out' @ drop lastEnd' input))
         = scanText rt (drop (i + 1) input)
             \<bind> (\<lambda>r. Some (out @ slice input lastEnd (i + 1) @ r))"
        using less.hyps [of "i + 1" lastEnd out] False less.prems by simp
      have m: "matchAllFrom input i = matchAllFrom input (i + 1)"
        using None False by (subst matchAllFrom.simps) simp
      have s: "scanText rt (drop i input)
                 = scanText rt (drop (i + 1) input) \<bind> (\<lambda>r. Some (input ! i # r))"
        using None ne hd by (subst scanText.simps) (simp add: drop_Suc tl_drop)
      show ?thesis
        unfolding m s ih
        by (cases "scanText rt (drop (i + 1) input)") (simp_all add: sl)
    next
      case (Some tok)
      note td = matchAt_take_drop [OF Some]
      from matchAt_nonempty [OF Some] have pos: "0 < length tok" by simp
      from td(1) False have le: "i + length tok \<le> length input" by simp
      obtain t where t: "transformWordToken rt tok = Some t"
        using transformWordToken_total by blast
      have ih: "convertText_loop rt input (out @ slice input lastEnd i @ t, i + length tok)
                  (matchAllFrom input (i + length tok))
           \<bind> (\<lambda>(out', lastEnd'). Some (out' @ drop lastEnd' input))
         = scanText rt (drop (i + length tok) input)
             \<bind> (\<lambda>r. Some ((out @ slice input lastEnd i @ t)
                    @ slice input (i + length tok) (i + length tok) @ r))"
      proof -
        have lt: "length input - (i + length tok) < length input - i"
          using pos False by arith
        show ?thesis
          using less.hyps [OF lt order_refl le, of "out @ slice input lastEnd i @ t"]
          by simp
      qed
      have m: "matchAllFrom input i = (i, tok) # matchAllFrom input (i + length tok)"
        using Some False by (subst matchAllFrom.simps) simp
      have s: "scanText rt (drop i input)
                 = scanText rt (drop (i + length tok) input) \<bind> (\<lambda>r. Some (t @ r))"
        using Some ne t by (subst scanText.simps) (simp add: add.commute)
      show ?thesis
        unfolding m s
        using ih by (cases "scanText rt (drop (i + length tok) input)")
          (simp_all add: t slice_def)
    qed
  qed
qed

lemma convertText_scan:
  "convertText rt input = map_option (toUpperCase rt) (scanText rt input)"
proof -
  have "convertText_loop rt input ([], 0) (matchAll input)
           \<bind> (\<lambda>(out', lastEnd'). Some (out' @ drop lastEnd' input))
         = scanText rt input"
    using convertText_loop_scan [of 0 0 input rt "[]"]
    by (simp add: matchAll_def slice_def)
  moreover obtain r where r: "scanText rt input = Some r"
    using scanText_total by blast
  ultimately obtain a b where
    "convertText_loop rt input ([], 0) (matchAll input) = Some (a, b)" "a @ drop b input = r"
    by (cases "convertText_loop rt input ([], 0) (matchAll input)") auto
  then show ?thesis
    by (simp add: convertText_def r)
qed

lemma wordChar_isLetter: "wordChar = isLetter"
  by (auto simp: wordChar_def isLetter_def fun_eq_iff)

lemma split_loop_concat: "concat (split_loop cur s) = cur @ s"
  by (induction s arbitrary: cur) simp_all

lemma splitKeep_concat: "concat (splitKeep tok) = tok"
  by (simp add: splitKeep_def split_loop_concat)

lemma split_loop_letters:
  "list_all wordChar ls \<Longrightarrow> split_loop cur (ls @ xs) = split_loop (cur @ ls) xs"
  by (induction ls arbitrary: cur) (auto simp: wordChar_def isSeparator_def)

lemma matchGroups_simps2:
  "matchGroups [] = []" "matchGroups [x] = []"
  "matchGroups (x # y # rest) =
     (if isSeparator x \<and> wordChar y
      then x # takeWhile wordChar (y # rest) @ matchGroups (dropWhile wordChar (y # rest))
      else [])"
  by (simp_all add: matchGroups.simps)

lemma takeWhile_letters:
  "wordChar y \<Longrightarrow> takeWhile wordChar (y # rest) \<noteq> []
     \<and> list_all wordChar (takeWhile wordChar (y # rest))"
  by (simp add: list_all_iff) (meson set_takeWhileD)

lemma split_groups:
  "cur \<noteq> [] \<Longrightarrow> list_all wordChar cur \<Longrightarrow>
   \<forall>p \<in> set (split_loop cur (matchGroups s)). partOk p"
proof (induction s arbitrary: cur rule: matchGroups.induct)
  case (1 s)
  have cur: "partOk cur"
    using 1(2,3) by (simp add: partOk_def wordChar_isLetter)
  consider "s = []" | x where "s = [x]" | x y rest where "s = x # y # rest"
    by (cases s rule: list_shape3) auto
  then show ?case
  proof cases
    case 1
    with cur show ?thesis by (simp add: matchGroups_simps2)
  next
    case 2
    with cur show ?thesis by (simp add: matchGroups_simps2)
  next
    case (3 x y rest)
    show ?thesis
    proof (cases "isSeparator x \<and> wordChar y")
      case True
      let ?L = "takeWhile wordChar (y # rest)"
      let ?D = "dropWhile wordChar (y # rest)"
      from True have L: "?L \<noteq> []" "list_all wordChar ?L"
        using takeWhile_letters [of y rest] by simp_all
      have mg: "matchGroups s = x # ?L @ matchGroups ?D"
        using True by (simp add: 3 matchGroups_simps2 del: takeWhile.simps dropWhile.simps)
      have sl: "split_loop [] (?L @ matchGroups ?D) = split_loop ?L (matchGroups ?D)"
        using split_loop_letters [OF L(2), of "[]"] by simp
      have "split_loop cur (matchGroups s) = cur # [x] # split_loop ?L (matchGroups ?D)"
        unfolding mg using True sl by (simp del: takeWhile.simps dropWhile.simps)
      moreover have "\<forall>p \<in> set (split_loop ?L (matchGroups ?D)). partOk p"
        using 1(1) [OF 3 refl True L] .
      moreover have "partOk [x]" using True by (auto simp: partOk_def isSeparator_def js_def)
      ultimately show ?thesis using cur by simp
    next
      case False
      then have "matchGroups s = []" by (auto simp add: 3 matchGroups_simps2)
      with cur show ?thesis by simp
    qed
  qed
qed

lemma matchAt_parts:
  assumes "matchAt s = Some tok"
  shows "\<forall>p \<in> set (splitKeep tok). partOk p"
proof -
  from assms obtain c cs where s: "s = c # cs" and c: "wordChar c"
    and tok: "tok = takeWhile wordChar s @ matchGroups (dropWhile wordChar s)"
    by (cases s) (auto simp: matchAt_def split: if_splits)
  let ?L = "takeWhile wordChar s"
  have L: "?L \<noteq> []" "list_all wordChar ?L"
    using takeWhile_letters [OF c, of cs] by (simp_all add: s)
  have "splitKeep tok = split_loop ?L (matchGroups (dropWhile wordChar s))"
    unfolding splitKeep_def tok using split_loop_letters [OF L(2), of "[]"] by simp
  with split_groups [OF L] show ?thesis by simp
qed

lemma matchAllFrom_elems:
  "(idx, tok) \<in> set (matchAllFrom input i) \<Longrightarrow>
   idx < length input \<and> matchAt (drop idx input) = Some tok"
proof (induction input i rule: matchAllFrom.induct)
  case (1 input i)
  show ?case
  proof (cases "length input \<le> i")
    case True
    with 1(3) show ?thesis by (subst (asm) matchAllFrom.simps) simp
  next
    case False
    show ?thesis
    proof (cases "matchAt (drop i input)")
      case None
      with 1(3) False have "(idx, tok) \<in> set (matchAllFrom input (i + 1))"
        by (subst (asm) matchAllFrom.simps) simp
      with 1(1) False None show ?thesis by simp
    next
      case (Some t)
      with 1(3) False have
        "(idx, tok) = (i, t) \<or> (idx, tok) \<in> set (matchAllFrom input (i + length t))"
        by (subst (asm) matchAllFrom.simps) simp
      with 1(2) False Some show ?thesis by auto
    qed
  qed
qed

lemma partOk_chars: "partOk p \<Longrightarrow> c \<in> set p \<Longrightarrow> isLetter c \<or> isSeparator c"
  by (auto simp: partOk_def js_def isSeparator_def list_all_iff)

lemma token_chars:
  assumes "matchAt s = Some tok" and "c \<in> set tok"
  shows "isLetter c \<or> isSeparator c"
proof -
  from assms(2) have "c \<in> set (concat (splitKeep tok))" by (simp add: splitKeep_concat)
  then obtain p where "p \<in> set (splitKeep tok)" "c \<in> set p" by auto
  with matchAt_parts [OF assms(1)] partOk_chars show ?thesis by blast
qed

lemma isLetter_ascii: "isLetter c \<Longrightarrow> c < 128"
  by (auto simp: isLetter_def)

lemma isLetter_asciiUpper: "isLetter c \<Longrightarrow> isLetter (asciiUpper c)"
  by (auto simp: isLetter_def asciiUpper_def)

lemma toUpperCase_append: "toUpperCase rt (a @ b) = toUpperCase rt a @ toUpperCase rt b"
  by (simp add: toUpperCase_def)

lemma toUpperCase_letters:
  "list_all isLetter s \<Longrightarrow> list_all isLetter (toUpperCase rt s)"
  by (induction s) (simp_all add: toUpperCase_def upper1_def isLetter_ascii isLetter_asciiUpper)

lemma EXCEPTIONS_letters:
  "ex \<in> set EXCEPTIONS \<Longrightarrow> list_all isLetter (exOutValue (exRuleOut ex) part)"
  by (auto simp: EXCEPTIONS_def js_def isLetter_def)

lemma applyExceptions_letters:
  assumes "fst (applyExceptions rt part)"
  shows "list_all isLetter (snd (applyExceptions rt part))"
proof (cases "find (\<lambda>ex. exMatches rt ex part) EXCEPTIONS")
  case None
  with assms show ?thesis by (simp add: applyExceptions_def applyExceptionsIn_find)
next
  case (Some ex)
  then have "ex \<in> set EXCEPTIONS" by (auto simp: find_Some_iff)
  with Some EXCEPTIONS_letters show ?thesis
    by (simp add: applyExceptions_def applyExceptionsIn_find)
qed

lemma transformWordPart_letters:
  assumes "list_all isLetter part" and "transformWordPart rt part = Some r"
  shows "list_all isLetter r"
proof (cases "fst (applyExceptions rt part)")
  case True
  with assms(2) have "r = toUpperCase rt (snd (applyExceptions rt part))"
    by (simp add: transformWordPart_stages)
  with applyExceptions_letters [OF True] toUpperCase_letters show ?thesis by simp
next
  case False
  from transformWordPart_pipeline [OF False] assms(2) obtain segs where
    r: "r = toUpperCase rt (segToString segs)"
    and sub: "set segs \<subseteq> set (segFromString part True) \<union> synth"
    by auto
  have "\<forall>x \<in> set segs. isLetter (ch x)"
    using sub assms(1) by (auto simp: segFromString_def synth_def list_all_iff)
  then have "list_all isLetter (segToString segs)"
    by (simp add: segToString_def list_all_iff)
  with r toUpperCase_letters show ?thesis by simp
qed

lemma spliceSegs_nonempty: "ins \<noteq> [] \<Longrightarrow> spliceSegs segs a b ins \<noteq> []"
  by (simp add: spliceSegs_def Let_def)

lemma lit_nonempty [simp]: "segFromString (js (c # cs)) orig \<noteq> []"
  by (simp add: segFromString_def js_def)

lemma pairScan_nonempty: "ins \<noteq> [] \<Longrightarrow> segs \<noteq> [] \<Longrightarrow> pairScan rt a b ins segs \<noteq> []"
  by (induction rt a b ins segs rule: pairScan.induct) auto

lemma suffixStagesBeforeAH_nonempty:
  assumes "suffixStagesBeforeAH rt part = Some segs" and "part \<noteq> []"
  shows "segs \<noteq> []"
proof -
  let ?s1 = "pairScan rt (js ''E'') (js ''R'') (segFromString (js ''AH'') False)
               (segFromString part True)"
  let ?s2 = "pairScan rt (js ''I'') (js ''R'') (segFromString (js ''AR'') False) ?s1"
  let ?s3 = "fst (replaceEndingTION rt ?s2)"
  let ?s4 = "fst (replaceEndingTY rt ?s3)"
  have "segFromString part True \<noteq> []" using assms(2) by (simp add: segFromString_def)
  then have "?s1 \<noteq> []" by (rule pairScan_nonempty [OF lit_nonempty])
  then have "?s2 \<noteq> []" by (rule pairScan_nonempty [OF lit_nonempty])
  then have "?s3 \<noteq> []" by (simp add: replaceEndingTION_def Let_def spliceSegs_nonempty)
  then have "?s4 \<noteq> []" by (simp add: replaceEndingTY_def Let_def spliceSegs_nonempty)
  then have "replaceEndingLY rt ?s4 \<noteq> []"
    by (simp add: replaceEndingLY_def Let_def spliceSegs_nonempty)
  moreover have "segs = replaceEndingLY rt ?s4"
    using assms(1)
    by (simp add: suffixStagesBeforeAH_def replaceAllERWithAH_scan replaceAllIRWithAR_scan)
  ultimately show ?thesis by simp
qed

lemma stagesBeforeVowelSwaps_nonempty:
  assumes "stagesBeforeVowelSwaps rt part = Some (segs, flag)" and "part \<noteq> []"
  shows "segs \<noteq> []"
proof -
  obtain s5 where s5: "suffixStagesBeforeAH rt part = Some s5"
    using suffixStagesBeforeAH_total by blast
  obtain s6 f where s6: "applyEndingAH rt s5 = (s6, f)" by (cases "applyEndingAH rt s5")
  let ?s7 = "fst (replaceEndingAY rt s6)"
  let ?s8 = "fst (replaceEndingYToEH rt ?s7)"
  obtain s9 where s9: "replaceStartingSNWithSAN rt ?s8 = Some s9"
    by (simp add: replaceStartingSNWithSAN_eq)
  obtain s10 where s10: "replaceStartingSWWithSAW rt s9 = Some s10"
    by (simp add: replaceStartingSWWithSAW_eq)
  obtain s11 where s11: "applyPrefixREToRO rt s10 = Some s11"
    by (simp add: applyPrefixREToRO_eq)
  obtain s12 where s12: "applyClusterInsertions rt s11 = Some s12"
    by (simp add: applyClusterInsertions_eq)
  have "s5 \<noteq> []" using suffixStagesBeforeAH_nonempty [OF s5 assms(2)] .
  then have "s6 \<noteq> []"
    using s6 by (auto simp: applyEndingAH_def Let_def spliceSegs_nonempty split: if_splits)
  then have "?s7 \<noteq> []" by (simp add: replaceEndingAY_def Let_def spliceSegs_nonempty)
  then have "?s8 \<noteq> []" by (simp add: replaceEndingYToEH_def Let_def spliceSegs_nonempty)
  then have "s9 \<noteq> []"
    using s9 by (auto simp: replaceStartingSNWithSAN_eq spliceSegs_nonempty split: if_splits)
  then have "s10 \<noteq> []"
    using s10 by (auto simp: replaceStartingSWWithSAW_eq spliceSegs_nonempty split: if_splits)
  then have "s11 \<noteq> []"
    using s11 by (auto simp: applyPrefixREToRO_eq spliceSegs_nonempty split: if_splits)
  then have "s12 \<noteq> []"
    using s12 by (auto simp: applyClusterInsertions_eq spliceSegs_nonempty split: if_splits)
  moreover have "stagesBeforeVowelSwaps rt part = Some (s12, f)"
    by (simp add: stagesBeforeVowelSwaps_def s5 s6 s9 s10 s11 s12)
  ultimately show ?thesis using assms(1) by simp
qed

lemma toUpperCase_letters_nonempty:
  "list_all isLetter s \<Longrightarrow> s \<noteq> [] \<Longrightarrow> toUpperCase rt s \<noteq> []"
  by (cases s) (simp_all add: toUpperCase_def upper1_def isLetter_ascii)

lemma EXCEPTIONS_nonempty:
  "ex \<in> set EXCEPTIONS \<Longrightarrow> exOutValue (exRuleOut ex) part \<noteq> []"
  by (auto simp: EXCEPTIONS_def js_def)

lemma transformWordPart_nonempty:
  assumes "list_all isLetter part" and "part \<noteq> []" and "transformWordPart rt part = Some r"
  shows "toUpperCase rt r \<noteq> []"
proof -
  have l: "list_all isLetter r" using transformWordPart_letters [OF assms(1,3)] .
  have "r \<noteq> []"
  proof (cases "fst (applyExceptions rt part)")
    case True
    then obtain ex where f: "find (\<lambda>ex. exMatches rt ex part) EXCEPTIONS = Some ex"
      by (cases "find (\<lambda>ex. exMatches rt ex part) EXCEPTIONS")
        (auto simp: applyExceptions_def applyExceptionsIn_find)
    then have "ex \<in> set EXCEPTIONS" by (auto simp: find_Some_iff)
    then have ne: "exOutValue (exRuleOut ex) part \<noteq> []"
      and le: "list_all isLetter (exOutValue (exRuleOut ex) part)"
      using EXCEPTIONS_nonempty EXCEPTIONS_letters by blast+
    have "r = toUpperCase rt (exOutValue (exRuleOut ex) part)"
      using assms(3) True f
      by (simp add: transformWordPart_stages applyExceptions_def applyExceptionsIn_find)
    with toUpperCase_letters_nonempty [OF le ne] show ?thesis by simp
  next
    case False
    obtain s f where sf: "stagesBeforeVowelSwaps rt part = Some (s, f)"
      using stagesBeforeVowelSwaps_total by blast
    have s: "s \<noteq> []" using stagesBeforeVowelSwaps_nonempty [OF sf assms(2)] .
    obtain res where res: "applyVowelSwaps rt s f = Some res" "length res = length s"
      by (simp add: applyVowelSwaps_eq)
    have sub: "set res \<subseteq> set (segFromString part True) \<union> synth"
      using applyVowelSwaps_synth [OF res(1)] stagesBeforeVowelSwaps_total [of rt part] sf
      by auto
    have "\<forall>x \<in> set res. isLetter (ch x)"
      using sub assms(1) by (auto simp: segFromString_def synth_def list_all_iff)
    then have "list_all isLetter (segToString res)"
      by (simp add: segToString_def list_all_iff)
    moreover have "segToString res \<noteq> []"
      using res(2) s by (auto simp: segToString_def)
    moreover have "r = toUpperCase rt (segToString res)"
      using assms(3) False by (simp add: transformWordPart_stages sf res(1))
    ultimately show ?thesis
      using toUpperCase_letters_nonempty by simp
  qed
  with l show ?thesis by (rule toUpperCase_letters_nonempty [rotated -1, rotated])
qed

lemma collapseRuns_letters:
  "list_all isLetter ls \<Longrightarrow> ls \<noteq> [] \<Longrightarrow>
   collapseRuns b (ls @ xs) = (if b then [] else [65]) @ collapseRuns True xs"
proof (induction ls arbitrary: b)
  case Nil
  then show ?case by simp
next
  case (Cons c ls)
  then show ?case by (cases ls) auto
qed

lemma transformParts_skeleton:
  assumes "transformParts rt ps = Some qs" and "\<forall>p \<in> set ps. partOk p"
    and "\<And>b'. collapseRuns b' xs = collapseRuns b' ys"
  shows "collapseRuns b (toUpperCase rt (concat qs) @ xs) = collapseRuns b (concat ps @ ys)"
  using assms(1,2)
proof (induction ps arbitrary: qs b)
  case Nil
  then show ?case using assms(3) by (simp add: toUpperCase_def)
next
  case (Cons p ps)
  from Cons.prems(1) obtain q qs' where
    q: "(if p = js ''-'' \<or> p = js [CHR 39] then Some p else transformWordPart rt p) = Some q"
    and qs': "transformParts rt ps = Some qs'" and qs: "qs = q # qs'"
    by (auto simp: bind_eq_Some_conv)
  have ih: "\<And>b. collapseRuns b (toUpperCase rt (concat qs') @ xs)
              = collapseRuns b (concat ps @ ys)"
    using Cons.IH [OF qs'] Cons.prems(2) by simp
  show ?case
  proof (cases "p = js ''-'' \<or> p = js [CHR 39]")
    case True
    with q have "q = p" by simp
    with True ih show ?thesis
      by (auto simp: qs toUpperCase_append toUpperCase_def upper1_def asciiUpper_def js_def
          isLetter_def)
  next
    case False
    with Cons.prems(2) have l: "list_all isLetter p" and ne: "p \<noteq> []"
      by (simp_all add: partOk_def)
    from False q have tq: "transformWordPart rt p = Some q" by simp
    have lq: "list_all isLetter (toUpperCase rt q)"
      using transformWordPart_letters [OF l tq] by (rule toUpperCase_letters)
    have nq: "toUpperCase rt q \<noteq> []"
      using transformWordPart_nonempty [OF l ne tq] .
    show ?thesis
      using collapseRuns_letters [OF lq nq] collapseRuns_letters [OF l ne] ih
      by (simp add: qs toUpperCase_append)
  qed
qed

lemma scanText_skeleton:
  assumes "scanText rt s = Some r"
    and "\<forall>c \<in> set s. \<not> isLetter c \<longrightarrow> upper1 rt c = [c]"
  shows "collapseRuns b (toUpperCase rt r) = collapseRuns b s"
  using assms
proof (induction rt s arbitrary: r b rule: scanText.induct)
  case (1 rt s)
  show ?case
  proof (cases "s = []")
    case True
    with 1(3) have "r = []" by (subst (asm) scanText.simps) simp
    with True show ?thesis by (simp add: toUpperCase_def)
  next
    case False
    show ?thesis
    proof (cases "matchAt s")
      case None
      from 1(3) None False obtain r' where r': "scanText rt (tl s) = Some r'"
        and r: "r = hd s # r'"
        by (subst (asm) scanText.simps) (auto simp: bind_eq_Some_conv)
      have fx: "\<forall>c \<in> set (tl s). \<not> isLetter c \<longrightarrow> upper1 rt c = [c]"
        using 1(4) False by (metis list.set_sel(2))
      have nl: "\<not> isLetter (hd s)"
        using matchAt_None_hd [OF False None] by (simp add: wordChar_isLetter)
      then have up: "upper1 rt (hd s) = [hd s]"
        using 1(4) False by simp
      have ih: "collapseRuns False (toUpperCase rt r') = collapseRuns False (tl s)"
        using 1(1) [OF False None r' fx] .
      have a: "toUpperCase rt r = hd s # toUpperCase rt r'"
        using up by (simp add: r toUpperCase_def)
      have "collapseRuns b (hd s # toUpperCase rt r') = collapseRuns b (hd s # tl s)"
        using nl ih by simp
      then show ?thesis
        using False by (simp add: a)
    next
      case (Some tok)
      from 1(3) Some False obtain t r' where t: "transformWordToken rt tok = Some t"
        and r': "scanText rt (drop (length tok) s) = Some r'" and r: "r = t @ r'"
        by (subst (asm) scanText.simps) (auto simp: bind_eq_Some_conv)
      have fx: "\<forall>c \<in> set (drop (length tok) s). \<not> isLetter c \<longrightarrow> upper1 rt c = [c]"
        using 1(4) by (meson in_set_dropD)
      have ih: "\<And>b'. collapseRuns b' (toUpperCase rt r')
              = collapseRuns b' (drop (length tok) s)"
        using 1(2) [OF False Some t r' fx] .
      from t obtain qs where qs: "transformParts rt (splitKeep tok) = Some qs"
        and tq: "t = concat qs"
        by (auto simp: transformWordToken_def bind_eq_Some_conv)
      have "collapseRuns b (toUpperCase rt (concat qs) @ toUpperCase rt r')
              = collapseRuns b (concat (splitKeep tok) @ drop (length tok) s)"
        using transformParts_skeleton [OF qs matchAt_parts [OF Some] ih] .
      moreover have "concat (splitKeep tok) @ drop (length tok) s = s"
        using matchAt_take_drop [OF Some] append_take_drop_id [of "length tok" s]
        by (simp add: splitKeep_concat)
      ultimately show ?thesis
        by (simp add: r tq toUpperCase_append)
    qed
  qed
qed

lemma filter_collapseRuns:
  "filter (\<lambda>c. \<not> isLetter c) (collapseRuns b s) = filter (\<lambda>c. \<not> isLetter c) s"
  by (induction s arbitrary: b) (simp_all add: isLetter_def)

lemma transformParts_rel:
  "\<exists>qs. transformParts rt ps = Some qs
     \<and> list_all2 (\<lambda>p q. if p = js ''-'' \<or> p = js [CHR 39] then q = p
                         else transformWordPart rt p = Some q) ps qs"
proof (induction ps)
  case Nil
  show ?case by simp
next
  case (Cons p ps)
  then obtain qs where qs: "transformParts rt ps = Some qs"
    and rel: "list_all2 (\<lambda>p q. if p = js ''-'' \<or> p = js [CHR 39] then q = p
                         else transformWordPart rt p = Some q) ps qs"
    by blast
  obtain q where q: "transformWordPart rt p = Some q"
    using transformWordPart_total by blast
  show ?case
  proof (cases "p = js ''-'' \<or> p = js [CHR 39]")
    case True
    then have "transformParts rt (p # ps) = Some (p # qs)" by (simp add: qs)
    with True rel show ?thesis by simp
  next
    case False
    then have "transformParts rt (p # ps) = Some (q # qs)" by (simp add: qs q)
    with False rel q show ?thesis by simp
  qed
qed

section \<open>The claims\<close>

text \<open>
  C1 as stated: every non-letter character outside a token keeps its position. It does
  not: in \<open>snake!\<close> the exclamation mark is at index 5, and the output is \<open>SANOKE!\<close>,
  which has \<open>E\<close> at index 5, because the word before it grew by one letter.
\<close>

theorem nonletter_position_counterexample:
  "\<not> isLetter (js ''snake!'' ! 5) \<and> \<not> isSeparator (js ''snake!'' ! 5)
   \<and> convertText latin1Runtime (js ''snake!'') = Some (js ''SANOKE!'')
   \<and> js ''SANOKE!'' ! 5 \<noteq> js ''snake!'' ! 5"
  by code_simp

text \<open>
  C1, amended: for every input whose non-ASCII characters are left as they are by
  upper-casing (none to check when the input is ASCII), \<open>convertText\<close> returns a string that
  differs from the input only inside its runs of letters: with every maximal run of
  letters collapsed to a single mark, input and output are the same string. So the
  non-letter characters of the output are those of the input, each unchanged, in the
  same order and between the same words; their positions move with the lengths of the
  words before them.
\<close>

theorem nonletters_kept_in_order:
  assumes "\<forall>c \<in> set input. 128 \<le> c \<longrightarrow> uc rt c = [c]"
  shows "\<exists>out. convertText rt input = Some out
           \<and> skeleton out = skeleton input
           \<and> filter (\<lambda>c. \<not> isLetter c) out = filter (\<lambda>c. \<not> isLetter c) input"
proof -
  have fx: "\<forall>c \<in> set input. \<not> isLetter c \<longrightarrow> upper1 rt c = [c]"
    using assms by (auto simp: upper1_def asciiUpper_def isLetter_def)
  obtain r where r: "scanText rt input = Some r"
    using scanText_total by blast
  have s: "skeleton (toUpperCase rt r) = skeleton input"
    unfolding skeleton_def using scanText_skeleton [OF r fx] .
  then have "filter (\<lambda>c. \<not> isLetter c) (skeleton (toUpperCase rt r))
               = filter (\<lambda>c. \<not> isLetter c) (skeleton input)"
    by simp
  then have "filter (\<lambda>c. \<not> isLetter c) (toUpperCase rt r) = filter (\<lambda>c. \<not> isLetter c) input"
    by (simp add: skeleton_def filter_collapseRuns)
  with s r show ?thesis
    by (simp add: convertText_scan)
qed

theorem nonletters_kept_in_order_witness:
  "list_all (\<lambda>c. c < 128 \<or> uc latin1Runtime c = [c]) (js ''snake! re-do '' @ [161])
   \<and> convertText latin1Runtime (js ''snake! re-do '' @ [161])
       = Some (js ''SANOKE! RE-DO '' @ [161])
   \<and> skeleton (js ''SANOKE! RE-DO '' @ [161]) = js ''A! A-A '' @ [161]
   \<and> skeleton (js ''snake! re-do '' @ [161]) = js ''A! A-A '' @ [161]
   \<and> filter (\<lambda>c. \<not> isLetter c) (js ''SANOKE! RE-DO '' @ [161]) = js ''! - '' @ [161]
   \<and> filter (\<lambda>c. \<not> isLetter c) (js ''snake! re-do '' @ [161]) = js ''! - '' @ [161]"
proof -
  let ?input = "js ''snake! re-do '' @ [161]"
  have h: "\<forall>c \<in> set ?input. 128 \<le> c \<longrightarrow> uc latin1Runtime c = [c]"
    by (simp add: js_def latin1Runtime_def)
  have l: "list_all (\<lambda>c. c < 128 \<or> uc latin1Runtime c = [c]) ?input"
    by (simp add: js_def latin1Runtime_def)
  have c: "convertText latin1Runtime ?input = Some (js ''SANOKE! RE-DO '' @ [161])"
    by code_simp
  have f: "filter (\<lambda>c. \<not> isLetter c) ?input = js ''! - '' @ [161]"
    by (simp add: js_def isLetter_def)
  have k: "skeleton ?input = js ''A! A-A '' @ [161]"
    by (simp add: skeleton_def js_def isLetter_def)
  from nonletters_kept_in_order [OF h] have
    "skeleton (js ''SANOKE! RE-DO '' @ [161]) = js ''A! A-A '' @ [161]
     \<and> filter (\<lambda>c. \<not> isLetter c) (js ''SANOKE! RE-DO '' @ [161]) = js ''! - '' @ [161]"
    unfolding c f k by simp
  with l c f k show ?thesis by simp
qed

text \<open>
  C2: when a word-part matches an entry of the exception table, \<open>transformWordPart\<close>
  returns the output value of the first matching entry, upper-cased, and nothing else:
  no suffix, prefix, cluster or vowel stage takes part in the result.
\<close>

theorem exception_priority:
  assumes "find (\<lambda>ex. exMatches rt ex part) EXCEPTIONS = Some ex"
  shows "applyExceptions rt part = (True, exOutValue (exRuleOut ex) part)
         \<and> transformWordPart rt part = Some (toUpperCase rt (exOutValue (exRuleOut ex) part))"
  using assms
  by (simp add: transformWordPart_stages applyExceptions_def applyExceptionsIn_find)

theorem exception_priority_witness:
  "find (\<lambda>ex. exMatches latin1Runtime ex (js ''Your'')) EXCEPTIONS
     = Some (RegexRule [js ''you'', js ''your''] (OutString (js ''YA'')))
   \<and> transformWordPart latin1Runtime (js ''Your'') = Some (js ''YA'')"
proof -
  have f: "find (\<lambda>ex. exMatches latin1Runtime ex (js ''Your'')) EXCEPTIONS
     = Some (RegexRule [js ''you'', js ''your''] (OutString (js ''YA'')))"
    by (simp add: EXCEPTIONS_def regexMatches_def canonicalize_def asciiUpper_def js_def)
  have u: "toUpperCase latin1Runtime (js ''YA'') = js ''YA''"
    by code_simp
  from exception_priority [OF f] show ?thesis
    by (simp add: f u)
qed

text \<open>
  C3: when the segments handed to the vowel swap hold exactly four original vowels
  (\<open>origin\<close> true, upper-case form in A/E/I/O/U) and \<open>endingChangedToAH\<close> is false,
  \<open>applyVowelSwaps\<close> returns normally and leaves the segments of the last two of them
  untouched, character and origin flag; and that result is what \<open>transformWordPart\<close>
  renders for every word-part whose earlier stages produced these segments.
\<close>

theorem vowel_swap_protects_last_two:
  assumes "origVowelIdx_loop rt segs 0 [] = Some idx"
    and "length idx = 4"
  shows "\<exists>res. applyVowelSwaps rt segs False = Some res
           \<and> length res = length segs
           \<and> idx ! 2 < length segs \<and> idx ! 3 < length segs
           \<and> res ! (idx ! 2) = segs ! (idx ! 2)
           \<and> res ! (idx ! 3) = segs ! (idx ! 3)
           \<and> (\<forall>part. \<not> fst (applyExceptions rt part)
                  \<and> stagesBeforeVowelSwaps rt part = Some (segs, False)
                \<longrightarrow> transformWordPart rt part = Some (toUpperCase rt (segToString res)))"
proof -
  from assms(1) have idx: "idx = origVowelPositions rt segs"
    by (simp add: origVowelIdx_loop_positions)
  let ?ps = "protectSetOf False idx"
  let ?res = "map (\<lambda>k. if swapCond rt (protectedSuffixStartIndex rt segs) ?ps segs k
                        then \<lparr> ch = 111, origin = False \<rparr> else segs ! k) [0..<length segs]"
  have res: "applyVowelSwaps rt segs False = Some ?res"
    by (simp add: applyVowelSwaps_eq idx)
  have b2: "idx ! 2 < length segs" and b3: "idx ! 3 < length segs"
    using assms(2) origVowelPositions_bound [of _ rt segs] by (simp_all add: idx)
  have "idx ! 2 \<in> ?ps" "idx ! 3 \<in> ?ps"
    using assms(2) by (simp_all add: protectSetOf_def)
  then have "\<not> swapCond rt (protectedSuffixStartIndex rt segs) ?ps segs (idx ! 2)"
    "\<not> swapCond rt (protectedSuffixStartIndex rt segs) ?ps segs (idx ! 3)"
    by (simp_all add: swapCond_def)
  then have "?res ! (idx ! 2) = segs ! (idx ! 2)" "?res ! (idx ! 3) = segs ! (idx ! 3)"
    using b2 b3 by simp_all
  moreover have "length ?res = length segs" by simp
  moreover have "\<forall>part. \<not> fst (applyExceptions rt part)
                  \<and> stagesBeforeVowelSwaps rt part = Some (segs, False)
                \<longrightarrow> transformWordPart rt part = Some (toUpperCase rt (segToString ?res))"
    by (simp add: transformWordPart_stages res)
  ultimately show ?thesis
    using res b2 b3 by blast
qed

theorem vowel_swap_protects_last_two_witness:
  "origVowelIdx_loop latin1Runtime
      (segFromString (js ''g'') True @ segFromString (js ''A'') False
         @ segFromString (js ''rammatical'') True) 0 [] = Some [3, 6, 8, 10]
   \<and> stagesBeforeVowelSwaps latin1Runtime (js ''grammatical'')
       = Some (segFromString (js ''g'') True @ segFromString (js ''A'') False
                 @ segFromString (js ''rammatical'') True, False)
   \<and> (\<exists>res. applyVowelSwaps latin1Runtime
                (segFromString (js ''g'') True @ segFromString (js ''A'') False
                   @ segFromString (js ''rammatical'') True) False = Some res
          \<and> res ! 8 = \<lparr> ch = 105, origin = True \<rparr>
          \<and> res ! 10 = \<lparr> ch = 97, origin = True \<rparr>
          \<and> transformWordPart latin1Runtime (js ''grammatical'')
              = Some (toUpperCase latin1Runtime (segToString res)))"
proof -
  let ?segs = "segFromString (js ''g'') True @ segFromString (js ''A'') False
                 @ segFromString (js ''rammatical'') True"
  have h1: "origVowelIdx_loop latin1Runtime ?segs 0 [] = Some [3, 6, 8, 10]"
    by code_simp
  have h2: "length [3, 6, 8, 10 :: nat] = 4" by simp
  have h3: "\<not> fst (applyExceptions latin1Runtime (js ''grammatical''))"
    by code_simp
  have h4: "stagesBeforeVowelSwaps latin1Runtime (js ''grammatical'') = Some (?segs, False)"
    by code_simp
  have s8: "?segs ! 8 = \<lparr> ch = 105, origin = True \<rparr>"
    and s10: "?segs ! 10 = \<lparr> ch = 97, origin = True \<rparr>"
    by (simp_all add: segFromString_def js_def)
  from vowel_swap_protects_last_two [OF h1 h2] obtain res where
    r: "applyVowelSwaps latin1Runtime ?segs False = Some res"
      "res ! ([3, 6, 8, 10] ! 2) = ?segs ! ([3, 6, 8, 10] ! 2)"
      "res ! ([3, 6, 8, 10] ! 3) = ?segs ! ([3, 6, 8, 10] ! 3)"
      "\<forall>part. \<not> fst (applyExceptions latin1Runtime part)
                  \<and> stagesBeforeVowelSwaps latin1Runtime part = Some (?segs, False)
                \<longrightarrow> transformWordPart latin1Runtime part
                      = Some (toUpperCase latin1Runtime (segToString res))"
    by blast
  from r(4) h3 h4 have "transformWordPart latin1Runtime (js ''grammatical'')
          = Some (toUpperCase latin1Runtime (segToString res))"
    by blast
  moreover from r(2) have "res ! 8 = \<lparr> ch = 105, origin = True \<rparr>"
    unfolding s8 [symmetric] by simp
  moreover from r(3) have "res ! 10 = \<lparr> ch = 97, origin = True \<rparr>"
    unfolding s10 [symmetric] by simp
  ultimately show ?thesis
    using h1 h4 r(1) by blast
qed



text \<open>
  C8: \<open>convertText\<close> returns a string on every input and for every runtime: no read
  of a missing element is ever reached (the result is never \<open>None\<close>), and every loop
  of the model is a total function.
\<close>

theorem convertText_total: "\<exists>out. convertText rt input = Some out"
  using scanText_total [of rt input] by (auto simp: convertText_scan)

text \<open>
  C9: for every ASCII word-part (every word-part is made of ASCII letters), the stages
  that run before \<open>applyEndingAH\<close> return segments whose upper-cased rendering does not
  end with \<open>ER\<close>; so the flag \<open>applyEndingAH\<close> returns, which is the flag the later
  stages hand to the vowel swap, is true exactly when that rendering ends with \<open>UR\<close>
  or with \<open>A\<close>.
\<close>

theorem ending_ER_unreachable:
  assumes "list_all (\<lambda>c. c < 128) part"
  shows "\<exists>segs. suffixStagesBeforeAH rt part = Some segs
           \<and> \<not> endsWith (toUpperCase rt (segToString segs)) (js ''ER'')
           \<and> snd (applyEndingAH rt segs)
               = (endsWith (toUpperCase rt (segToString segs)) (js ''UR'')
                  \<or> endsWith (toUpperCase rt (segToString segs)) (js ''A''))
           \<and> (\<exists>segs'. stagesBeforeVowelSwaps rt part
                 = Some (segs', endsWith (toUpperCase rt (segToString segs)) (js ''UR'')
                                \<or> endsWith (toUpperCase rt (segToString segs)) (js ''A'')))"
proof -
  obtain segs where s: "suffixStagesBeforeAH rt part = Some segs"
    and sub: "set segs \<subseteq> set (segFromString part True) \<union> synth"
    using suffixStagesBeforeAH_total by blast
  have "\<forall>x \<in> set segs. ch x < 128"
    using sub assms synth_ascii by (auto simp: segFromString_def list_all_iff)
  then have ner: "\<not> endsWith (toUpperCase rt (segToString segs)) (js ''ER'')"
    using endsWith_ER_hasPair suffixStagesBeforeAH_noER [OF s] by blast
  then have flag: "snd (applyEndingAH rt segs)
               = (endsWith (toUpperCase rt (segToString segs)) (js ''UR'')
                  \<or> endsWith (toUpperCase rt (segToString segs)) (js ''A''))"
    by (simp add: applyEndingAH_def Let_def)
  from stagesBeforeVowelSwaps_flag [OF s] obtain segs' where
    "stagesBeforeVowelSwaps rt part = Some (segs', snd (applyEndingAH rt segs))"
    by blast
  with flag have "\<exists>segs'. stagesBeforeVowelSwaps rt part
                 = Some (segs', endsWith (toUpperCase rt (segToString segs)) (js ''UR'')
                                \<or> endsWith (toUpperCase rt (segToString segs)) (js ''A''))"
    by auto
  with s ner flag show ?thesis by blast
qed

theorem ending_ER_unreachable_witness:
  "list_all (\<lambda>c. c < 128) (js ''lecturer'')
   \<and> suffixStagesBeforeAH latin1Runtime (js ''lecturer'')
       = Some (segFromString (js ''lectur'') True @ segFromString (js ''AH'') False)
   \<and> \<not> endsWith (toUpperCase latin1Runtime (segToString
            (segFromString (js ''lectur'') True @ segFromString (js ''AH'') False))) (js ''ER'')
   \<and> snd (applyEndingAH latin1Runtime
            (segFromString (js ''lectur'') True @ segFromString (js ''AH'') False))
       = (endsWith (toUpperCase latin1Runtime (segToString
            (segFromString (js ''lectur'') True @ segFromString (js ''AH'') False))) (js ''UR'')
          \<or> endsWith (toUpperCase latin1Runtime (segToString
            (segFromString (js ''lectur'') True @ segFromString (js ''AH'') False))) (js ''A''))"
proof -
  have h: "list_all (\<lambda>c. c < 128) (js ''lecturer'')" by (simp add: js_def)
  have e: "suffixStagesBeforeAH latin1Runtime (js ''lecturer'')
       = Some (segFromString (js ''lectur'') True @ segFromString (js ''AH'') False)"
    by code_simp
  from ending_ER_unreachable [OF h, of latin1Runtime] show ?thesis
    unfolding e using h by simp
qed

text \<open>
  C10 as stated: every character other than the 52 letters is emitted only through the
  pass-through spans of \<open>convertText\<close>. It is not: in \<open>don't\<close> the apostrophe at
  index 3 is not a letter, the one token found is the whole input, both pass-through
  spans (before the token and after it) are empty, and the apostrophe of the output
  comes from \<open>transformWordToken\<close>, which keeps the separators of a token.
\<close>

theorem separator_inside_token_counterexample:
  "\<not> isLetter (js ''don't'' ! 3)
   \<and> matchAll (js ''don't'') = [(0, js ''don't'')]
   \<and> slice (js ''don't'') 0 0 = []
   \<and> drop (0 + length (js ''don't'')) (js ''don't'') = []
   \<and> splitKeep (js ''don't'') = [js ''don'', js [CHR 39], js ''t'']
   \<and> transformWordToken latin1Runtime (js ''don't'') = Some (js ''DON'T'')
   \<and> convertText latin1Runtime (js ''don't'') = Some (js ''DON'T'')
   \<and> js ''DON'T'' ! 3 = js ''don't'' ! 3"
  by code_simp

text \<open>
  C10, amended: only the 52 letters A-Z and a-z are word characters. Every token found
  by \<open>matchAll\<close> is the piece of the input at its index, and \<open>transformWordToken\<close>
  splits it into parts that are a hyphen, an apostrophe, or a non-empty run of letters;
  it hands the runs of letters, and nothing else, to \<open>transformWordPart\<close>, and keeps
  a hyphen or an apostrophe inside a token as it is. Every input position inside a token
  holds a letter or such a separator, so any other character (a digit, an accented
  letter, a symbol) lies outside all tokens; and \<open>convertText\<close> is the upper-casing of
  \<open>scanText\<close>, which copies each character outside a token as it is.
\<close>

theorem only_letters_reach_transformWordPart:
  "(\<forall>(idx, tok) \<in> set (matchAll input).
       tok = slice input idx (idx + length tok)
       \<and> (\<forall>p \<in> set (splitKeep tok).
             p = js ''-'' \<or> p = js [CHR 39] \<or> (p \<noteq> [] \<and> list_all isLetter p))
       \<and> (\<exists>qs. transformParts rt (splitKeep tok) = Some qs
              \<and> transformWordToken rt tok = Some (concat qs)
              \<and> list_all2 (\<lambda>p q. if p = js ''-'' \<or> p = js [CHR 39] then q = p
                                  else transformWordPart rt p = Some q) (splitKeep tok) qs)
       \<and> (\<forall>k. idx \<le> k \<and> k < idx + length tok
             \<longrightarrow> isLetter (input ! k) \<or> isSeparator (input ! k)))
   \<and> convertText rt input = map_option (toUpperCase rt) (scanText rt input)"
proof (rule conjI)
  show "\<forall>(idx, tok) \<in> set (matchAll input).
       tok = slice input idx (idx + length tok)
       \<and> (\<forall>p \<in> set (splitKeep tok).
             p = js ''-'' \<or> p = js [CHR 39] \<or> (p \<noteq> [] \<and> list_all isLetter p))
       \<and> (\<exists>qs. transformParts rt (splitKeep tok) = Some qs
              \<and> transformWordToken rt tok = Some (concat qs)
              \<and> list_all2 (\<lambda>p q. if p = js ''-'' \<or> p = js [CHR 39] then q = p
                                  else transformWordPart rt p = Some q) (splitKeep tok) qs)
       \<and> (\<forall>k. idx \<le> k \<and> k < idx + length tok
             \<longrightarrow> isLetter (input ! k) \<or> isSeparator (input ! k))"
  proof (rule ballI)
    fix x
    assume x: "x \<in> set (matchAll input)"
    obtain idx tok where xp: "x = (idx, tok)" by (cases x)
    from x have m: "matchAt (drop idx input) = Some tok" and lt: "idx < length input"
      using matchAllFrom_elems [of idx tok input 0] by (simp_all add: matchAll_def xp)
    note td = matchAt_take_drop [OF m]
    have a: "tok = slice input idx (idx + length tok)"
      using td(2) by (simp add: slice_def)
    have b: "\<forall>p \<in> set (splitKeep tok).
             p = js ''-'' \<or> p = js [CHR 39] \<or> (p \<noteq> [] \<and> list_all isLetter p)"
      using matchAt_parts [OF m] by (simp add: partOk_def)
    obtain qs where qs: "transformParts rt (splitKeep tok) = Some qs"
      and rel: "list_all2 (\<lambda>p q. if p = js ''-'' \<or> p = js [CHR 39] then q = p
                                  else transformWordPart rt p = Some q) (splitKeep tok) qs"
      using transformParts_rel by blast
    have tk: "transformWordToken rt tok = Some (concat qs)"
      by (simp add: transformWordToken_def qs)
    have d: "\<exists>qs. transformParts rt (splitKeep tok) = Some qs
              \<and> transformWordToken rt tok = Some (concat qs)
              \<and> list_all2 (\<lambda>p q. if p = js ''-'' \<or> p = js [CHR 39] then q = p
                                  else transformWordPart rt p = Some q) (splitKeep tok) qs"
      using qs rel tk by blast
    have c: "\<forall>k. idx \<le> k \<and> k < idx + length tok
             \<longrightarrow> isLetter (input ! k) \<or> isSeparator (input ! k)"
    proof (intro allI impI)
      fix k
      assume k: "idx \<le> k \<and> k < idx + length tok"
      then have j: "k - idx < length tok" by arith
      have "tok ! (k - idx) = take (length tok) (drop idx input) ! (k - idx)"
        by (simp only: td(2))
      also have "\<dots> = drop idx input ! (k - idx)"
        using j by simp
      also have "\<dots> = input ! k"
        using k lt by simp
      finally have "input ! k = tok ! (k - idx)" by simp
      then have "input ! k \<in> set tok"
        using j by simp
      with token_chars [OF m] show "isLetter (input ! k) \<or> isSeparator (input ! k)"
        by blast
    qed
    show "case x of (idx, tok) \<Rightarrow>
       tok = slice input idx (idx + length tok)
       \<and> (\<forall>p \<in> set (splitKeep tok).
             p = js ''-'' \<or> p = js [CHR 39] \<or> (p \<noteq> [] \<and> list_all isLetter p))
       \<and> (\<exists>qs. transformParts rt (splitKeep tok) = Some qs
              \<and> transformWordToken rt tok = Some (concat qs)
              \<and> list_all2 (\<lambda>p q. if p = js ''-'' \<or> p = js [CHR 39] then q = p
                                  else transformWordPart rt p = Some q) (splitKeep tok) qs)
       \<and> (\<forall>k. idx \<le> k \<and> k < idx + length tok
             \<longrightarrow> isLetter (input ! k) \<or> isSeparator (input ! k))"
      unfolding xp prod.case using a b d c by (intro conjI)
  qed
next
  show "convertText rt input = map_option (toUpperCase rt) (scanText rt input)"
    by (rule convertText_scan)
qed

theorem only_letters_reach_transformWordPart_witness:
  "matchAll (js ''re-do caf'' @ [233] @ js '' 4u'')
     = [(0, js ''re-do''), (6, js ''caf''), (12, js ''u'')]
   \<and> js ''caf'' = slice (js ''re-do caf'' @ [233] @ js '' 4u'') 6 (6 + length (js ''caf''))
   \<and> splitKeep (js ''re-do'') = [js ''re'', js ''-'', js ''do'']
   \<and> list_all (\<lambda>p. p = js ''-'' \<or> p = js [CHR 39] \<or> (p \<noteq> [] \<and> list_all isLetter p))
         (splitKeep (js ''re-do''))
   \<and> (\<exists>qs. transformParts latin1Runtime (splitKeep (js ''re-do'')) = Some qs
          \<and> transformWordToken latin1Runtime (js ''re-do'') = Some (concat qs)
          \<and> list_all2 (\<lambda>p q. if p = js ''-'' \<or> p = js [CHR 39] then q = p
                              else transformWordPart latin1Runtime p = Some q)
               (splitKeep (js ''re-do'')) qs)
   \<and> transformWordToken latin1Runtime (js ''re-do'') = Some (js ''RE-DO'')
   \<and> convertText latin1Runtime (js ''re-do caf'' @ [233] @ js '' 4u'')
       = Some (js ''RE-DO CAF'' @ [201] @ js '' 4U'')"
proof -
  let ?input = "js ''re-do caf'' @ [233] @ js '' 4u''"
  have m: "matchAll ?input = [(0, js ''re-do''), (6, js ''caf''), (12, js ''u'')]"
    by code_simp
  have s: "map_option (toUpperCase latin1Runtime) (scanText latin1Runtime ?input)
       = Some (js ''RE-DO CAF'' @ [201] @ js '' 4U'')"
    by code_simp
  have p: "splitKeep (js ''re-do'') = [js ''re'', js ''-'', js ''do'']"
    by code_simp
  have w: "transformWordToken latin1Runtime (js ''re-do'') = Some (js ''RE-DO'')"
    by code_simp
  note t = only_letters_reach_transformWordPart [of ?input latin1Runtime]
  from t have c: "convertText latin1Runtime ?input
       = map_option (toUpperCase latin1Runtime) (scanText latin1Runtime ?input)"
    by blast
  from t have sl: "js ''caf'' = slice ?input 6 (6 + length (js ''caf''))"
    unfolding m by simp
  from t have ok: "list_all (\<lambda>p. p = js ''-'' \<or> p = js [CHR 39]
                       \<or> (p \<noteq> [] \<and> list_all isLetter p)) (splitKeep (js ''re-do''))"
    unfolding m list_all_iff by simp
  from t have ex: "\<exists>qs. transformParts latin1Runtime (splitKeep (js ''re-do'')) = Some qs
          \<and> transformWordToken latin1Runtime (js ''re-do'') = Some (concat qs)
          \<and> list_all2 (\<lambda>p q. if p = js ''-'' \<or> p = js [CHR 39] then q = p
                              else transformWordPart latin1Runtime p = Some q)
               (splitKeep (js ''re-do'')) qs"
    unfolding m by simp
  from m sl p ok ex w c s show ?thesis by simp
qed

section \<open>Concrete conversions\<close>

text \<open>
  C5. The claim is that \<open>convert("snake")\<close> is \<open>SANAKE\<close>. On the code the prefix rule
  gives \<open>SAN\<close> + \<open>ake\<close>, and the vowel swap then turns the original \<open>a\<close> (not the last
  original vowel, not followed by a vowel) into \<open>O\<close>: the result is \<open>SANOKE\<close>, for
  every runtime. The rulebook that comes with the code lists SNAKE \<rightarrow> SANAKE.
\<close>

theorem convert_snake: "convertText rt (js ''snake'') = Some (js ''SANOKE'')"
  by code_simp

text \<open>
  C6. The claim is that \<open>convert("information")\<close> is \<open>INFORMASHAN\<close>. On the code the
  ending becomes \<open>SHAN\<close> and the vowel swap turns the leading original \<open>i\<close> into \<open>O\<close>:
  the result is \<open>ONFORMASHAN\<close>, for every runtime. The rulebook that comes with the
  code lists INFORMATION \<rightarrow> INFORMASHAN.
\<close>

theorem convert_information:
  "convertText rt (js ''information'') = Some (js ''ONFORMASHAN'')"
  by code_simp

text \<open>
  C7 as stated: \<open>convert("don't stop")\<close> is \<open>DAN'T STAP\<close>. It is not.
\<close>

theorem convert_dont_stop_counterexample:
  "convertText latin1Runtime (js ''don't stop'') \<noteq> Some (js ''DAN'T STAP'')"
  by code_simp

text \<open>
  C7, amended: \<open>convert("don't stop")\<close> is \<open>DON'T STOP\<close>. The apostrophe and the space
  keep their positions 3 and 5, and the parts \<open>don\<close>, \<open>t\<close> and \<open>stop\<close> are transformed
  on their own, to \<open>DON\<close>, \<open>T\<close> and \<open>STOP\<close>: the letter O is never swapped.
\<close>

theorem convert_dont_stop:
  "convertText rt (js ''don't stop'') = Some (js ''DON'T STOP'')
   \<and> splitKeep (js ''don't'') = [js ''don'', js [CHR 39], js ''t'']
   \<and> transformWordPart rt (js ''don'') = Some (js ''DON'')
   \<and> transformWordPart rt (js ''t'') = Some (js ''T'')
   \<and> transformWordPart rt (js ''stop'') = Some (js ''STOP'')
   \<and> js ''DON'T STOP'' ! 3 = js ''don't stop'' ! 3
   \<and> js ''DON'T STOP'' ! 5 = js ''don't stop'' ! 5"
  by code_simp

end
